theory Spec2Isabelle
  imports Main "HOL-Library.Word"
begin

section \<open>Data model of pa2.c\<close>

text \<open>
  The schedulers of pa2.c work on three globals: \<open>current\<close>, \<open>readyqueue\<close> and the table
  \<open>resources\<close>. A process is identified by its address, here a natural number, and the
  process records live in a store \<open>procs\<close> from addresses to records, so that a write
  through one pointer (\<open>r->owner->prio = ...\<close>) is seen through every other pointer to
  the same process. The header process.h is not among the sources; the numeric fields
  of \<open>struct process\<close> are taken as C \<open>unsigned int\<close>, like the \<open>ticks\<close> counter that
  pa2.c declares: 32-bit words, on which \<open>+\<close> and \<open>-\<close> wrap around and \<open><\<close> compares
  unsigned values.

  The intrusive lists of list\_head.h are lists of addresses: the ready queue and each
  resource's wait queue, head first. A resource is named by its index in the table; the
  C parameter is an \<open>int\<close>, and an index that is not below the length of the table
  (as a negative one would be) is outside the table.

  \<open>prio_schedule\<close> and \<open>pa_schedule\<close> begin by calling \<open>dump_status()\<close>, a function of the
  framework that prints the state; it is left out.
\<close>

text \<open>
  The statuses are the three the specification lists; pa2.c itself writes \<open>PROCESS_WAIT\<close>
  and \<open>PROCESS_READY\<close> and tests for \<open>PROCESS_WAIT\<close>.
\<close>

datatype process_status = PROCESS_READY | PROCESS_RUNNING | PROCESS_WAIT

type_synonym u32 = "32 word"

record process =
  status :: process_status
  age :: u32
  lifespan :: u32
  prio :: u32
  prio_orig :: u32

record resource =
  owner :: "nat option"
  waitqueue :: "nat list"

record state =
  procs :: "nat \<Rightarrow> process"
  current :: "nat option"
  readyqueue :: "nat list"
  resources :: "resource list"

text \<open>
  What stops the C program is a value of the model: a failed \<open>assert\<close>, a NULL pointer
  that is dereferenced, and an index outside the resource table.
\<close>

datatype fault = Assertion_failed | Null_pointer | Bad_resource_id

text \<open>\<open>list_add_tail\<close> links a node before the list head, \<open>list_del_init\<close> unlinks it.\<close>

abbreviation list_add_tail :: "nat \<Rightarrow> nat list \<Rightarrow> nat list" where
  "list_add_tail p q \<equiv> q @ [p]"

abbreviation list_del_init :: "nat \<Rightarrow> nat list \<Rightarrow> nat list" where
  "list_del_init p q \<equiv> remove1 p q"

text \<open>
  The selection loops of pa2.c all have the shape
  \<^verbatim>\<open>list_for_each_entry_safe(cur, curn, head, list) { if (TEST(next, cur)) next = cur; }\<close>
  with \<open>next\<close> initialised to the first entry; \<open>scan_loop\<close> is that loop for a given test.
\<close>

fun scan_loop :: "(nat \<Rightarrow> nat \<Rightarrow> bool) \<Rightarrow> nat \<Rightarrow> nat list \<Rightarrow> nat" where
  "scan_loop test next [] = next"
| "scan_loop test next (cur # rest) = scan_loop test (if test next cur then cur else next) rest"

section \<open>Resource protocols\<close>

subsection \<open>FCFS\<close>

definition fcfs_acquire :: "nat \<Rightarrow> state \<Rightarrow> fault + (bool \<times> state)" where
  "fcfs_acquire resource_id s =
     (if \<not> resource_id < length (resources s) then Inl Bad_resource_id
      else let r = resources s ! resource_id in
        (case owner r of
           None \<Rightarrow> Inr (True, s\<lparr>resources := (resources s)[resource_id := r\<lparr>owner := current s\<rparr>]\<rparr>)
         | Some _ \<Rightarrow>
            (case current s of
               None \<Rightarrow> Inl Null_pointer
             | Some c \<Rightarrow>
                 Inr (False,
                   s\<lparr>procs := (procs s)(c := (procs s c)\<lparr>status := PROCESS_WAIT\<rparr>),
                     resources := (resources s)
                       [resource_id := r\<lparr>waitqueue := list_add_tail c (waitqueue r)\<rparr>]\<rparr>))))"

text \<open>
  The end of every release function: the chosen waiter must be waiting (an \<open>assert\<close>),
  leaves the wait queue, becomes ready and joins the ready queue at its tail.
\<close>

definition wake_up :: "nat \<Rightarrow> nat \<Rightarrow> state \<Rightarrow> fault + state" where
  "wake_up resource_id waiter s =
     (if status (procs s waiter) \<noteq> PROCESS_WAIT then Inl Assertion_failed
      else Inr (s\<lparr>procs := (procs s)(waiter := (procs s waiter)\<lparr>status := PROCESS_READY\<rparr>),
                 resources := (resources s)
                   [resource_id := (resources s ! resource_id)
                      \<lparr>waitqueue := list_del_init waiter (waitqueue (resources s ! resource_id))\<rparr>],
                 readyqueue := list_add_tail waiter (readyqueue s)\<rparr>))"

definition disown :: "nat \<Rightarrow> state \<Rightarrow> state" where
  "disown resource_id s =
     s\<lparr>resources := (resources s)[resource_id := (resources s ! resource_id)\<lparr>owner := None\<rparr>]\<rparr>"

definition fcfs_release :: "nat \<Rightarrow> state \<Rightarrow> fault + state" where
  "fcfs_release resource_id s =
     (if \<not> resource_id < length (resources s) then Inl Bad_resource_id
      else if owner (resources s ! resource_id) \<noteq> current s then Inl Assertion_failed
      else
        (case waitqueue (resources s ! resource_id) of
           [] \<Rightarrow> Inr (disown resource_id s)
         | waiter # _ \<Rightarrow> wake_up resource_id waiter (disown resource_id s)))"

subsection \<open>Priority-aware release\<close>

definition prio_release :: "nat \<Rightarrow> state \<Rightarrow> fault + state" where
  "prio_release resource_id s =
     (if \<not> resource_id < length (resources s) then Inl Bad_resource_id
      else if owner (resources s ! resource_id) \<noteq> current s then Inl Assertion_failed
      else
        (case waitqueue (resources s ! resource_id) of
           [] \<Rightarrow> Inr (disown resource_id s)
         | first # rest \<Rightarrow>
             wake_up resource_id
               (scan_loop (\<lambda>waiter cur. prio (procs s waiter) < prio (procs s cur))
                  first (first # rest))
               (disown resource_id s)))"

subsection \<open>Priority ceiling protocol\<close>

text \<open>\<open>MAX_PRIO\<close> is a macro of a header that is not among the sources: a parameter.\<close>

definition pcp_acquire :: "u32 \<Rightarrow> nat \<Rightarrow> state \<Rightarrow> fault + (bool \<times> state)" where
  "pcp_acquire MAX_PRIO resource_id s =
     (if \<not> resource_id < length (resources s) then Inl Bad_resource_id
      else let r = resources s ! resource_id in
        (case owner r of
           None \<Rightarrow>
             (case current s of
                None \<Rightarrow> Inl Null_pointer
              | Some c \<Rightarrow>
                  Inr (True,
                    s\<lparr>procs := (procs s)(c := (procs s c)\<lparr>prio := MAX_PRIO\<rparr>),
                      resources := (resources s)[resource_id := r\<lparr>owner := Some c\<rparr>]\<rparr>))
         | Some _ \<Rightarrow>
             (case current s of
                None \<Rightarrow> Inl Null_pointer
              | Some c \<Rightarrow>
                  Inr (False,
                    s\<lparr>procs := (procs s)(c := (procs s c)\<lparr>status := PROCESS_WAIT\<rparr>),
                      resources := (resources s)
                        [resource_id := r\<lparr>waitqueue := list_add_tail c (waitqueue r)\<rparr>]\<rparr>))))"

definition pcp_release :: "nat \<Rightarrow> state \<Rightarrow> fault + state" where
  "pcp_release resource_id s =
     (if \<not> resource_id < length (resources s) then Inl Bad_resource_id
      else if owner (resources s ! resource_id) \<noteq> current s then Inl Assertion_failed
      else
        (case current s of
           None \<Rightarrow> Inl Null_pointer
         | Some c \<Rightarrow>
            (let s1 = disown resource_id
                        (s\<lparr>procs := (procs s)(c := (procs s c)\<lparr>prio := prio_orig (procs s c)\<rparr>)\<rparr>)
             in case waitqueue (resources s ! resource_id) of
                  [] \<Rightarrow> Inr s1
                | waiter # _ \<Rightarrow> wake_up resource_id waiter s1)))"

subsection \<open>Priority inheritance protocol\<close>

definition pip_acquire :: "nat \<Rightarrow> state \<Rightarrow> fault + (bool \<times> state)" where
  "pip_acquire resource_id s =
     (if \<not> resource_id < length (resources s) then Inl Bad_resource_id
      else let r = resources s ! resource_id in
        (case owner r of
           None \<Rightarrow> Inr (True, s\<lparr>resources := (resources s)[resource_id := r\<lparr>owner := current s\<rparr>]\<rparr>)
         | Some ow \<Rightarrow>
            (case current s of
               None \<Rightarrow> Inl Null_pointer
             | Some c \<Rightarrow>
                (let ps1 = (procs s)(ow := (procs s ow)\<lparr>prio := prio (procs s c)\<rparr>)
                 in Inr (False,
                      s\<lparr>procs := ps1(c := (ps1 c)\<lparr>status := PROCESS_WAIT\<rparr>),
                        resources := (resources s)
                          [resource_id := r\<lparr>waitqueue := list_add_tail c (waitqueue r)\<rparr>]\<rparr>)))))"

definition pip_release :: "nat \<Rightarrow> state \<Rightarrow> fault + state" where
  "pip_release resource_id s =
     (if \<not> resource_id < length (resources s) then Inl Bad_resource_id
      else if owner (resources s ! resource_id) \<noteq> current s then Inl Assertion_failed
      else
        (case current s of
           None \<Rightarrow> Inl Null_pointer
         | Some c \<Rightarrow>
            (let s1 = disown resource_id
                        (s\<lparr>procs := (procs s)(c := (procs s c)\<lparr>prio := prio_orig (procs s c)\<rparr>)\<rparr>)
             in case waitqueue (resources s ! resource_id) of
                  [] \<Rightarrow> Inr s1
                | first # rest \<Rightarrow>
                    wake_up resource_id
                      (scan_loop (\<lambda>waiter cur. prio (procs s1 waiter) < prio (procs s1 cur))
                         first (first # rest))
                      s1)))"

section \<open>Scheduling policies\<close>

text \<open>
  A schedule function returns the next process to run (or NULL) and the state it leaves
  behind; the caller stores the result in \<open>current\<close>.
\<close>

definition detach :: "nat \<Rightarrow> state \<Rightarrow> nat option \<times> state" where
  "detach next s = (Some next, s\<lparr>readyqueue := list_del_init next (readyqueue s)\<rparr>)"

subsection \<open>FIFO\<close>

definition fifo_pick_next :: "state \<Rightarrow> nat option \<times> state" where
  "fifo_pick_next s =
     (case readyqueue s of
        [] \<Rightarrow> (None, s)
      | first # _ \<Rightarrow> detach first s)"

definition fifo_schedule :: "state \<Rightarrow> nat option \<times> state" where
  "fifo_schedule s =
     (case current s of
        None \<Rightarrow> fifo_pick_next s
      | Some c \<Rightarrow>
          if status (procs s c) = PROCESS_WAIT then fifo_pick_next s
          else if age (procs s c) < lifespan (procs s c) then (Some c, s)
          else fifo_pick_next s)"

subsection \<open>SJF\<close>

definition sjf_pick_next :: "state \<Rightarrow> nat option \<times> state" where
  "sjf_pick_next s =
     (case readyqueue s of
        [] \<Rightarrow> (None, s)
      | first # rest \<Rightarrow>
          detach
            (scan_loop (\<lambda>next cur. lifespan (procs s next) > lifespan (procs s cur))
               first (first # rest))
            s)"

definition sjf_schedule :: "state \<Rightarrow> nat option \<times> state" where
  "sjf_schedule s =
     (case current s of
        None \<Rightarrow> sjf_pick_next s
      | Some c \<Rightarrow>
          if status (procs s c) = PROCESS_WAIT then sjf_pick_next s
          else if age (procs s c) < lifespan (procs s c) then (Some c, s)
          else sjf_pick_next s)"

subsection \<open>SRTF, round-robin and priority: requeue, then select\<close>

text \<open>
  \<open>srtf_schedule\<close>, \<open>rr_schedule\<close> and \<open>prio_schedule\<close> begin with the same lines: a current
  process that is not waiting and has \<open>age < lifespan\<close> goes to the tail of the ready queue.
\<close>

definition requeue_current :: "state \<Rightarrow> state" where
  "requeue_current s =
     (case current s of
        None \<Rightarrow> s
      | Some c \<Rightarrow>
          if status (procs s c) = PROCESS_WAIT then s
          else if age (procs s c) < lifespan (procs s c)
            then s\<lparr>readyqueue := list_add_tail c (readyqueue s)\<rparr>
          else s)"

definition srtf_pick_next :: "state \<Rightarrow> nat option \<times> state" where
  "srtf_pick_next s =
     (case readyqueue s of
        [] \<Rightarrow> (None, s)
      | first # rest \<Rightarrow>
          detach
            (scan_loop
               (\<lambda>next cur. lifespan (procs s next) - age (procs s next)
                            > lifespan (procs s cur) - age (procs s cur))
               first (first # rest))
            s)"

definition srtf_schedule :: "state \<Rightarrow> nat option \<times> state" where
  "srtf_schedule s = srtf_pick_next (requeue_current s)"

definition rr_schedule :: "state \<Rightarrow> nat option \<times> state" where
  "rr_schedule s = fifo_pick_next (requeue_current s)"

definition prio_pick_next :: "state \<Rightarrow> nat option \<times> state" where
  "prio_pick_next s =
     (case readyqueue s of
        [] \<Rightarrow> (None, s)
      | first # rest \<Rightarrow>
          detach
            (scan_loop (\<lambda>next cur. prio (procs s next) < prio (procs s cur))
               first (first # rest))
            s)"

definition prio_schedule :: "state \<Rightarrow> nat option \<times> state" where
  "prio_schedule s = prio_pick_next (requeue_current s)"

subsection \<open>Priority with aging\<close>

definition pa_requeue :: "state \<Rightarrow> state" where
  "pa_requeue s =
     (case current s of
        None \<Rightarrow> s
      | Some c \<Rightarrow>
          if status (procs s c) = PROCESS_WAIT then s
          else if age (procs s c) < lifespan (procs s c)
            then s\<lparr>readyqueue := list_add_tail c (readyqueue s),
                   procs := (procs s)(c := (procs s c)\<lparr>prio := prio_orig (procs s c)\<rparr>)\<rparr>
          else s)"

text \<open>The loop of \<open>pa_schedule\<close> writes while it scans: \<open>cur->prio++\<close>, then the test.\<close>

fun pa_scan :: "(nat \<Rightarrow> process) \<Rightarrow> nat \<Rightarrow> nat list \<Rightarrow> (nat \<Rightarrow> process) \<times> nat" where
  "pa_scan ps next [] = (ps, next)"
| "pa_scan ps next (cur # rest) =
     (let ps1 = ps(cur := (ps cur)\<lparr>prio := prio (ps cur) + 1\<rparr>)
      in pa_scan ps1 (if prio (ps1 next) < prio (ps1 cur) then cur else next) rest)"

definition pa_pick_next :: "state \<Rightarrow> nat option \<times> state" where
  "pa_pick_next s =
     (case readyqueue s of
        [] \<Rightarrow> (None, s)
      | first # rest \<Rightarrow>
          (let (ps1, next) = pa_scan (procs s) first (first # rest)
           in detach next (s\<lparr>procs := ps1\<rparr>)))"

definition pa_schedule :: "state \<Rightarrow> nat option \<times> state" where
  "pa_schedule s = pa_pick_next (pa_requeue s)"

section \<open>The eight schedulers\<close>

datatype scheduler =
  fifo_scheduler | sjf_scheduler | srtf_scheduler | rr_scheduler
  | prio_scheduler | pa_scheduler | pcp_scheduler | pip_scheduler

fun acquire :: "u32 \<Rightarrow> scheduler \<Rightarrow> nat \<Rightarrow> state \<Rightarrow> fault + (bool \<times> state)" where
  "acquire MAX_PRIO fifo_scheduler = fcfs_acquire"
| "acquire MAX_PRIO sjf_scheduler = fcfs_acquire"
| "acquire MAX_PRIO srtf_scheduler = fcfs_acquire"
| "acquire MAX_PRIO rr_scheduler = fcfs_acquire"
| "acquire MAX_PRIO prio_scheduler = fcfs_acquire"
| "acquire MAX_PRIO pa_scheduler = fcfs_acquire"
| "acquire MAX_PRIO pcp_scheduler = pcp_acquire MAX_PRIO"
| "acquire MAX_PRIO pip_scheduler = pip_acquire"

fun release :: "scheduler \<Rightarrow> nat \<Rightarrow> state \<Rightarrow> fault + state" where
  "release fifo_scheduler = fcfs_release"
| "release sjf_scheduler = fcfs_release"
| "release srtf_scheduler = fcfs_release"
| "release rr_scheduler = fcfs_release"
| "release prio_scheduler = prio_release"
| "release pa_scheduler = fcfs_release"
| "release pcp_scheduler = pcp_release"
| "release pip_scheduler = pip_release"

fun schedule :: "scheduler \<Rightarrow> state \<Rightarrow> nat option \<times> state" where
  "schedule fifo_scheduler = fifo_schedule"
| "schedule sjf_scheduler = sjf_schedule"
| "schedule srtf_scheduler = srtf_schedule"
| "schedule rr_scheduler = rr_schedule"
| "schedule prio_scheduler = prio_schedule"
| "schedule pa_scheduler = pa_schedule"
| "schedule pcp_scheduler = prio_schedule"
| "schedule pip_scheduler = prio_schedule"

section \<open>The driver\<close>

text \<open>
  Modelled from the spec: the driver that calls the schedulers (the framework around
  pa2.c) is not among the sources. Sections 3, 5 and 6 of the specification give its
  contract: it creates the process records and puts a new process, READY, at the tail of
  the ready queue (\<open>fork\<close>); it calls \<open>schedule\<close> and stores the result in \<open>current\<close>,
  which is from then on the RUNNING process, the one that ran before being READY again
  unless it is waiting (\<open>switch\<close>); it advances the age of the running process (\<open>tick\<close>);
  and it calls \<open>acquire\<close> and \<open>release\<close> on behalf of the running process only, so that
  after an \<open>acquire\<close> that was not admitted (the process is WAITING) the next call is
  \<open>schedule\<close>. A process stays alive until a \<open>schedule\<close> call finds it current, not
  waiting and without remaining lifespan (\<open>retire\<close>): such a process is neither kept nor
  queued by any of the schedule functions. A step that the contract does not allow, or
  in which the C code stops on a fault, has no successor state.
\<close>

record sim =
  st :: state
  live :: "nat set"
  next_pid :: nat

text \<open>
  The calls of the driver: \<open>Fork l p\<close> creates a process of lifespan \<open>l\<close> and priority
  \<open>p\<close>, which gets the next free identity; \<open>Tick\<close> lets the running process run for one
  tick; \<open>Acquire\<close> and \<open>Release\<close> name a resource; \<open>Schedule\<close> asks for the next process.
\<close>

datatype event = Fork u32 u32 | Tick | Acquire nat | Release nat | Schedule

definition running :: "state \<Rightarrow> nat \<Rightarrow> bool" where
  "running s p \<longleftrightarrow> current s = Some p \<and> status (procs s p) \<noteq> PROCESS_WAIT"

definition unfinished :: "state \<Rightarrow> nat \<Rightarrow> bool" where
  "unfinished s p \<longleftrightarrow> running s p \<and> age (procs s p) < lifespan (procs s p)"

definition set_status :: "nat \<Rightarrow> process_status \<Rightarrow> state \<Rightarrow> state" where
  "set_status p v s = s\<lparr>procs := (procs s)(p := (procs s p)\<lparr>status := v\<rparr>)\<rparr>"

definition new_process :: "u32 \<Rightarrow> u32 \<Rightarrow> process" where
  "new_process l p =
     \<lparr>status = PROCESS_READY, age = 0, lifespan = l, prio = p, prio_orig = p\<rparr>"

definition init :: "nat \<Rightarrow> sim" where
  "init nr_resources =
     \<lparr>st = \<lparr>procs = (\<lambda>_. new_process 0 0), current = None, readyqueue = [],
             resources = replicate nr_resources \<lparr>owner = None, waitqueue = []\<rparr>\<rparr>,
      live = {}, next_pid = 0\<rparr>"

definition fork :: "u32 \<Rightarrow> u32 \<Rightarrow> sim \<Rightarrow> sim" where
  "fork l p d =
     d\<lparr>st := (st d)\<lparr>procs := (procs (st d))(next_pid d := new_process l p),
                    readyqueue := list_add_tail (next_pid d) (readyqueue (st d))\<rparr>,
       live := insert (next_pid d) (live d),
       next_pid := Suc (next_pid d)\<rparr>"

definition tick :: "nat \<Rightarrow> state \<Rightarrow> state" where
  "tick c s = s\<lparr>procs := (procs s)(c := (procs s c)\<lparr>age := age (procs s c) + 1\<rparr>)\<rparr>"

definition switch :: "nat option \<Rightarrow> nat option \<Rightarrow> state \<Rightarrow> state" where
  "switch prev next s =
     (let s1 = (case prev of
                  None \<Rightarrow> s
                | Some c \<Rightarrow> if status (procs s c) = PROCESS_RUNNING
                            then set_status c PROCESS_READY s else s);
          s2 = (case next of None \<Rightarrow> s1 | Some n \<Rightarrow> set_status n PROCESS_RUNNING s1)
      in s2\<lparr>current := next\<rparr>)"

definition retire :: "state \<Rightarrow> nat set \<Rightarrow> nat set" where
  "retire s alive =
     (case current s of
        None \<Rightarrow> alive
      | Some c \<Rightarrow> if running s c \<and> \<not> unfinished s c then alive - {c} else alive)"

fun step :: "u32 \<Rightarrow> scheduler \<Rightarrow> event \<Rightarrow> sim \<Rightarrow> sim option" where
  "step MAX_PRIO sch (Fork l p) d = Some (fork l p d)"
| "step MAX_PRIO sch Tick d =
     (case current (st d) of
        None \<Rightarrow> None
      | Some c \<Rightarrow> if running (st d) c then Some (d\<lparr>st := tick c (st d)\<rparr>) else None)"
| "step MAX_PRIO sch (Acquire rid) d =
     (case current (st d) of
        None \<Rightarrow> None
      | Some c \<Rightarrow>
          if running (st d) c then
            (case acquire MAX_PRIO sch rid (st d) of
               Inl _ \<Rightarrow> None
             | Inr (_, s') \<Rightarrow> Some (d\<lparr>st := s'\<rparr>))
          else None)"
| "step MAX_PRIO sch (Release rid) d =
     (case current (st d) of
        None \<Rightarrow> None
      | Some c \<Rightarrow>
          if running (st d) c then
            (case release sch rid (st d) of
               Inl _ \<Rightarrow> None
             | Inr s' \<Rightarrow> Some (d\<lparr>st := s'\<rparr>))
          else None)"
| "step MAX_PRIO sch Schedule d =
     (case schedule sch (st d) of
        (next, s1) \<Rightarrow>
          Some (d\<lparr>st := switch (current (st d)) next s1,
                  live := retire (st d) (live d)\<rparr>))"

fun run :: "u32 \<Rightarrow> scheduler \<Rightarrow> event list \<Rightarrow> sim \<Rightarrow> sim option" where
  "run MAX_PRIO sch [] d = Some d"
| "run MAX_PRIO sch (e # es) d =
     (case step MAX_PRIO sch e d of
        None \<Rightarrow> None
      | Some d' \<Rightarrow> run MAX_PRIO sch es d')"

text \<open>
  How often a process occurs in the queues: in the ready queue plus in all the wait
  queues. An intrusive list node is in one place at most, so the list model is faithful
  exactly where this number is at most 1.
\<close>

definition wqs :: "state \<Rightarrow> nat list list" where
  "wqs s = map waitqueue (resources s)"

definition occ :: "state \<Rightarrow> nat \<Rightarrow> nat" where
  "occ s p = count_list (readyqueue s) p + sum_list (map (\<lambda>q. count_list q p) (wqs s))"

section \<open>Notions used in the statements\<close>

text \<open>What an acquire changes.\<close>

definition blocked_on :: "nat \<Rightarrow> nat \<Rightarrow> state \<Rightarrow> state \<Rightarrow> bool" where
  "blocked_on rid c s s' \<longleftrightarrow>
     rid < length (wqs s) \<and> wqs s' = (wqs s)[rid := wqs s ! rid @ [c]] \<and>
     readyqueue s' = readyqueue s \<and> current s' = current s \<and>
     (\<forall>p. status (procs s' p) = (if p = c then PROCESS_WAIT else status (procs s p)))"

definition same_queues :: "state \<Rightarrow> state \<Rightarrow> bool" where
  "same_queues s s' \<longleftrightarrow>
     wqs s' = wqs s \<and> readyqueue s' = readyqueue s \<and> current s' = current s \<and>
     (\<forall>p. status (procs s' p) = status (procs s p))"

text \<open>What a release changes.\<close>

definition woken :: "nat \<Rightarrow> nat \<Rightarrow> state \<Rightarrow> state \<Rightarrow> bool" where
  "woken rid w s s' \<longleftrightarrow>
     rid < length (wqs s) \<and> w \<in> set (wqs s ! rid) \<and> status (procs s w) = PROCESS_WAIT \<and>
     wqs s' = (wqs s)[rid := remove1 w (wqs s ! rid)] \<and>
     readyqueue s' = readyqueue s @ [w] \<and> current s' = current s \<and>
     (\<forall>p. status (procs s' p) = (if p = w then PROCESS_READY else status (procs s p)))"

text \<open>What a schedule function changes.\<close>

definition picked :: "state \<Rightarrow> nat option \<Rightarrow> state \<Rightarrow> bool" where
  "picked s next s1 \<longleftrightarrow>
     wqs s1 = wqs s \<and> current s1 = current s \<and>
     (\<forall>p. status (procs s1 p) = status (procs s p)) \<and>
     (\<forall>p. count_list (readyqueue s1) p + (if next = Some p then 1 else 0)
           = count_list (readyqueue s) p)"

definition requeued :: "state \<Rightarrow> state \<Rightarrow> bool" where
  "requeued s s0 \<longleftrightarrow>
     wqs s0 = wqs s \<and> current s0 = current s \<and>
     (\<forall>p. status (procs s0 p) = status (procs s p)) \<and>
     (\<forall>p. count_list (readyqueue s0) p
           = count_list (readyqueue s) p + (if unfinished s p then 1 else 0))"

definition scheduled :: "state \<Rightarrow> nat option \<Rightarrow> state \<Rightarrow> bool" where
  "scheduled s next s1 \<longleftrightarrow>
     wqs s1 = wqs s \<and> current s1 = current s \<and>
     (\<forall>p. status (procs s1 p) = status (procs s p)) \<and>
     (\<forall>p. count_list (readyqueue s1) p + (if next = Some p then 1 else 0)
           = count_list (readyqueue s) p + (if unfinished s p then 1 else 0))"

text \<open>The invariant of the driver's runs.\<close>

definition queues_ok :: "sim \<Rightarrow> bool" where
  "queues_ok d \<longleftrightarrow>
     (\<forall>p. occ (st d) p = (if p \<in> live d \<and> \<not> running (st d) p then 1 else 0)) \<and>
     (\<forall>q \<in> set (wqs (st d)). \<forall>p \<in> set q. status (procs (st d) p) = PROCESS_WAIT) \<and>
     (\<forall>p \<in> live d. status (procs (st d) p) = PROCESS_RUNNING \<longrightarrow> current (st d) = Some p) \<and>
     (\<forall>c. current (st d) = Some c \<longrightarrow> c \<in> live d \<and> status (procs (st d) c) \<noteq> PROCESS_READY) \<and>
     (\<forall>p \<in> live d. p < next_pid d)"

text \<open>
  What the specification calls the selection result: the first process of a queue, in
  scan order, whose key no other process of the queue exceeds (\<open>first_max_by\<close>), or
  whose key is below no other's (\<open>first_min_by\<close>). These two definitions follow the
  specification's words; the lemmas after them relate the loops of pa2.c to them.
\<close>

definition first_max_by :: "(nat \<Rightarrow> 'k::linorder) \<Rightarrow> nat list \<Rightarrow> nat option" where
  "first_max_by key q = List.find (\<lambda>x. \<forall>y \<in> set q. key y \<le> key x) q"

definition first_min_by :: "(nat \<Rightarrow> 'k::linorder) \<Rightarrow> nat list \<Rightarrow> nat option" where
  "first_min_by key q = List.find (\<lambda>x. \<forall>y \<in> set q. key x \<le> key y) q"

text \<open>The remaining time the SRTF loop compares: \<open>lifespan - age\<close>, on unsigned words.\<close>

definition remaining :: "state \<Rightarrow> nat \<Rightarrow> u32" where
  "remaining s p = lifespan (procs s p) - age (procs s p)"

text \<open>
  The processes that successive \<open>schedule\<close> calls of a driver run hand out: one entry
  for each Schedule event, in order. The log ends where a step is refused.
\<close>

fun schedule_log :: "u32 \<Rightarrow> scheduler \<Rightarrow> event list \<Rightarrow> sim \<Rightarrow> nat option list" where
  "schedule_log MAX_PRIO sch [] d = []"
| "schedule_log MAX_PRIO sch (e # es) d =
     (case step MAX_PRIO sch e d of
        None \<Rightarrow> []
      | Some d' \<Rightarrow>
          (case e of Schedule \<Rightarrow> [current (st d')] | _ \<Rightarrow> [])
          @ schedule_log MAX_PRIO sch es d')"

text \<open>The store after the aging loop has run over the queue \<open>q\<close>: every process of \<open>q\<close>
  has its priority incremented, by word addition.\<close>

definition aged :: "(nat \<Rightarrow> process) \<Rightarrow> nat list \<Rightarrow> nat \<Rightarrow> process" where
  "aged ps q p = (if p \<in> set q then (ps p)\<lparr>prio := prio (ps p) + 1\<rparr> else ps p)"

text \<open>A run in which process \<open>p\<close> releases nothing.\<close>

fun run_without_release ::
    "u32 \<Rightarrow> scheduler \<Rightarrow> nat \<Rightarrow> event list \<Rightarrow> sim \<Rightarrow> sim option" where
  "run_without_release MAX_PRIO sch p [] d = Some d"
| "run_without_release MAX_PRIO sch p (e # es) d =
     (if (case e of Release _ \<Rightarrow> current (st d) = Some p | _ \<Rightarrow> False) then None
      else case step MAX_PRIO sch e d of
             None \<Rightarrow> None
           | Some d' \<Rightarrow> run_without_release MAX_PRIO sch p es d')"

section \<open>Concrete states and runs\<close>

text \<open>The inputs at which the theorems below are instantiated and the code is evaluated.\<close>

definition pip_trace :: "event list" where
  "pip_trace =
     [Fork 3 1, Schedule, Acquire 0, Fork 3 5, Tick, Schedule, Acquire 0, Schedule, Fork 3 2]"

definition wait_state :: state where
  "wait_state =
     \<lparr>procs = (\<lambda>_. new_process 0 0)
        (0 := \<lparr>status = PROCESS_RUNNING, age = 1, lifespan = 4, prio = 9, prio_orig = 1\<rparr>,
         1 := \<lparr>status = PROCESS_WAIT, age = 0, lifespan = 2, prio = 3, prio_orig = 3\<rparr>,
         2 := \<lparr>status = PROCESS_WAIT, age = 0, lifespan = 2, prio = 7, prio_orig = 7\<rparr>,
         3 := \<lparr>status = PROCESS_WAIT, age = 0, lifespan = 2, prio = 7, prio_orig = 7\<rparr>,
         4 := \<lparr>status = PROCESS_READY, age = 0, lifespan = 2, prio = 2, prio_orig = 2\<rparr>),
      current = Some 0, readyqueue = [4],
      resources = [\<lparr>owner = Some 0, waitqueue = [1, 2, 3]\<rparr>, \<lparr>owner = None, waitqueue = []\<rparr>]\<rparr>"

definition contend_state :: state where
  "contend_state =
     \<lparr>procs = (\<lambda>_. new_process 0 0)
        (0 := \<lparr>status = PROCESS_READY, age = 1, lifespan = 4, prio = 1, prio_orig = 1\<rparr>,
         1 := \<lparr>status = PROCESS_WAIT, age = 0, lifespan = 2, prio = 3, prio_orig = 3\<rparr>,
         5 := \<lparr>status = PROCESS_RUNNING, age = 0, lifespan = 2, prio = 6, prio_orig = 6\<rparr>),
      current = Some 5, readyqueue = [0],
      resources = [\<lparr>owner = Some 0, waitqueue = [1]\<rparr>, \<lparr>owner = None, waitqueue = []\<rparr>]\<rparr>"

definition srtf_state :: state where
  "srtf_state =
     \<lparr>procs = (\<lambda>_. new_process 0 0)
        (0 := \<lparr>status = PROCESS_RUNNING, age = 2, lifespan = 5, prio = 0, prio_orig = 0\<rparr>,
         1 := \<lparr>status = PROCESS_READY, age = 0, lifespan = 3, prio = 0, prio_orig = 0\<rparr>,
         2 := \<lparr>status = PROCESS_READY, age = 0, lifespan = 4, prio = 0, prio_orig = 0\<rparr>),
      current = Some 0, readyqueue = [2, 1],
      resources = [\<lparr>owner = None, waitqueue = []\<rparr>]\<rparr>"

definition rr_events :: "event list" where
  "rr_events =
     [Fork 3 0, Fork 3 0, Fork 3 0,
      Schedule, Tick, Schedule, Tick, Schedule, Tick,
      Schedule, Tick, Schedule, Tick, Schedule, Tick,
      Schedule, Tick, Schedule, Tick, Schedule, Tick, Schedule]"

definition sjf_events :: "event list" where
  "sjf_events =
     [Fork 5 0, Fork 3 0, Fork 8 0,
      Schedule, Tick, Schedule, Tick, Schedule, Tick,
      Schedule, Tick, Schedule, Tick, Schedule, Tick, Schedule, Tick, Schedule, Tick,
      Schedule, Tick, Schedule, Tick, Schedule, Tick, Schedule, Tick,
      Schedule, Tick, Schedule, Tick, Schedule, Tick, Schedule, Tick, Schedule]"

definition sjf_state :: state where
  "sjf_state =
     \<lparr>procs = (\<lambda>_. new_process 0 0)
        (0 := new_process 5 0, 1 := new_process 3 0, 2 := new_process 8 0, 3 := new_process 3 0),
      current = None, readyqueue = [0, 1, 2, 3],
      resources = [\<lparr>owner = None, waitqueue = []\<rparr>]\<rparr>"

definition pa_state :: state where
  "pa_state =
     \<lparr>procs = (\<lambda>_. new_process 0 0)
        (0 := \<lparr>status = PROCESS_RUNNING, age = 1, lifespan = 4, prio = 9, prio_orig = 5\<rparr>,
         1 := \<lparr>status = PROCESS_READY, age = 0, lifespan = 2, prio = 4, prio_orig = 3\<rparr>,
         2 := \<lparr>status = PROCESS_READY, age = 0, lifespan = 2, prio = 2, prio_orig = 2\<rparr>),
      current = Some 0, readyqueue = [1, 2],
      resources = [\<lparr>owner = None, waitqueue = []\<rparr>]\<rparr>"

definition pa_idle_state :: state where
  "pa_idle_state =
     \<lparr>procs = (\<lambda>_. new_process 0 0)
        (1 := \<lparr>status = PROCESS_READY, age = 0, lifespan = 2, prio = 4, prio_orig = 3\<rparr>,
         2 := \<lparr>status = PROCESS_READY, age = 0, lifespan = 2, prio = 7, prio_orig = 2\<rparr>,
         3 := \<lparr>status = PROCESS_READY, age = 0, lifespan = 2, prio = 7, prio_orig = 7\<rparr>),
      current = None, readyqueue = [1, 2, 3],
      resources = [\<lparr>owner = None, waitqueue = []\<rparr>]\<rparr>"

definition pa_trace :: "event list" where
  "pa_trace =
     [Fork 9 0, Schedule, Acquire 0, Fork 9 1, Tick, Schedule, Acquire 0, Fork 9 5,
      Schedule, Acquire 0, Schedule]"

definition pip_lower_trace :: "event list" where
  "pip_lower_trace =
     [Fork 3 1, Schedule, Acquire 1, Fork 3 9, Schedule, Acquire 0, Acquire 1, Schedule,
      Release 1]"

definition pa_wrap_trace :: "event list" where
  "pa_wrap_trace = [Fork 3 (- 1), Fork 3 0]"

definition pcp_trace :: "event list" where
  "pcp_trace = [Fork 3 5, Schedule, Acquire 0, Acquire 1, Release 1]"

definition pcp_start :: sim where
  "pcp_start =
     \<lparr>st = \<lparr>procs = (\<lambda>_. new_process 0 0)
               (0 := \<lparr>status = PROCESS_RUNNING, age = 0, lifespan = 3, prio = 5, prio_orig = 5\<rparr>),
             current = Some 0, readyqueue = [],
             resources = [\<lparr>owner = None, waitqueue = []\<rparr>, \<lparr>owner = None, waitqueue = []\<rparr>]\<rparr>,
      live = {0}, next_pid = 1\<rparr>"

definition pcp_held :: state where
  "pcp_held =
     (st pcp_start)
       \<lparr>procs := (procs (st pcp_start))(0 := (procs (st pcp_start) 0)\<lparr>prio := 64\<rparr>),
         resources := (resources (st pcp_start))
           [0 := (resources (st pcp_start) ! 0)\<lparr>owner := Some 0\<rparr>]\<rparr>"

definition pcp_holding :: "event list" where
  "pcp_holding = [Tick, Acquire 1, Fork 2 9, Schedule]"

section \<open>Lemmas on the operations\<close>

lemma sum_list_map_update:
  fixes f :: "'a \<Rightarrow> nat"
  shows "i < length xs \<Longrightarrow> sum_list (map f (xs[i := x])) + f (xs ! i) = sum_list (map f xs) + f x"
proof (induction xs arbitrary: i)
  case Nil then show ?case by simp
next
  case (Cons a xs)
  then show ?case by (cases i) auto
qed

lemma scan_loop_mem: "scan_loop test n q \<in> insert n (set q)"
  by (induction q arbitrary: n) auto

lemma scan_loop_in: "scan_loop test first (first # rest) \<in> set (first # rest)"
  using scan_loop_mem [of test first "first # rest"] by simp

lemma count_remove1:
  "w \<in> set q \<Longrightarrow> count_list (remove1 w q) p + (if p = w then 1 else 0) = count_list q p"
  by (induction q) auto

lemma wq_member_counted:
  assumes "q \<in> set qs" "p \<in> set q"
  shows "1 \<le> sum_list (map (\<lambda>q. count_list q p) qs)"
proof -
  have "count_list q p \<le> sum_list (map (\<lambda>q. count_list q p) qs)"
    using assms(1) by (simp add: member_le_sum_list)
  moreover have "count_list q p \<noteq> 0" using assms(2) by (simp add: count_list_0_iff)
  ultimately show ?thesis by linarith
qed

lemma map_update_self: "(map f xs)[i := f (xs ! i)] = map f xs"
  by (cases "i < length xs") (simp_all add: list_update_same_conv list_update_beyond)

lemma wqs_owner_update [simp]:
  "wqs (s\<lparr>resources := (resources s)[rid := (resources s ! rid)\<lparr>owner := x\<rparr>]\<rparr>) = wqs s"
  by (simp add: wqs_def map_update map_update_self)

lemma wqs_waitqueue_update:
  "rid < length (resources s) \<Longrightarrow>
   wqs (s\<lparr>resources := (resources s)[rid := (resources s ! rid)\<lparr>waitqueue := q\<rparr>]\<rparr>)
     = (wqs s)[rid := q]"
  by (simp add: wqs_def map_update)

lemma acquire_effect:
  assumes "acquire mp sch rid s = Inr (b, s')" "current s = Some c"
  shows "if b then same_queues s s' else blocked_on rid c s s'"
proof -
  have f: "fcfs_acquire rid s = Inr (b, s') \<Longrightarrow> ?thesis"
    using assms(2)
    by (auto simp: fcfs_acquire_def Let_def same_queues_def blocked_on_def wqs_def map_update
          map_update_self split: if_splits option.splits)
  have c: "pcp_acquire mp rid s = Inr (b, s') \<Longrightarrow> ?thesis"
    using assms(2)
    by (auto simp: pcp_acquire_def Let_def same_queues_def blocked_on_def wqs_def map_update
          map_update_self split: if_splits option.splits)
  have i: "pip_acquire rid s = Inr (b, s') \<Longrightarrow> ?thesis"
    using assms(2)
    by (auto simp: pip_acquire_def Let_def same_queues_def blocked_on_def wqs_def map_update
          map_update_self split: if_splits option.splits)
  show ?thesis using assms(1) f c i by (cases sch) simp_all
qed

lemma wake_up_effect:
  assumes "wake_up rid w s1 = Inr s'" "rid < length (resources s1)" "w \<in> set (wqs s1 ! rid)"
  shows "woken rid w s1 s'"
  using assms
  by (auto simp: wake_up_def woken_def wqs_def map_update split: if_splits)

lemma woken_cong:
  "woken rid w s1 s' \<Longrightarrow> wqs s1 = wqs s \<Longrightarrow> readyqueue s1 = readyqueue s \<Longrightarrow>
   current s1 = current s \<Longrightarrow> (\<forall>p. status (procs s1 p) = status (procs s p)) \<Longrightarrow>
   woken rid w s s'"
  by (simp add: woken_def)

lemma release_effect:
  assumes "release sch rid s = Inr s'"
  shows "same_queues s s' \<or> (\<exists>w. woken rid w s s')"
proof -
  have f: "fcfs_release rid s = Inr s' \<Longrightarrow> ?thesis"
  proof -
    assume a: "fcfs_release rid s = Inr s'"
    show ?thesis
    proof (cases "waitqueue (resources s ! rid)")
      case Nil
      with a show ?thesis
        by (auto simp: fcfs_release_def disown_def same_queues_def split: if_splits)
    next
      case (Cons w ws)
      with a have r: "rid < length (resources s)" and
        w: "wake_up rid w (disown rid s) = Inr s'"
        by (auto simp: fcfs_release_def split: if_splits)
      have "w \<in> set (wqs (disown rid s) ! rid)" using Cons r by (simp add: disown_def wqs_def)
      with w r have "woken rid w (disown rid s) s'"
        by (intro wake_up_effect) (auto simp: disown_def)
      then have "woken rid w s s'"
        by (rule woken_cong) (auto simp: disown_def)
      then show ?thesis by blast
    qed
  qed
  have p: "prio_release rid s = Inr s' \<Longrightarrow> ?thesis"
  proof -
    assume a: "prio_release rid s = Inr s'"
    show ?thesis
    proof (cases "waitqueue (resources s ! rid)")
      case Nil
      with a show ?thesis
        by (auto simp: prio_release_def disown_def same_queues_def split: if_splits)
    next
      case (Cons first rest)
      define w where "w = scan_loop (\<lambda>waiter cur. prio (procs s waiter) < prio (procs s cur))
                  first (first # rest)"
      from Cons a have r: "rid < length (resources s)" and
        w: "wake_up rid w (disown rid s) = Inr s'"
        by (auto simp: prio_release_def w_def split: if_splits)
      have "w \<in> set (first # rest)" unfolding w_def by (rule scan_loop_in)
      then have "w \<in> set (wqs (disown rid s) ! rid)"
        using Cons r by (simp add: disown_def wqs_def)
      with w r have "woken rid w (disown rid s) s'"
        by (intro wake_up_effect) (auto simp: disown_def)
      then have "woken rid w s s'"
        by (rule woken_cong) (auto simp: disown_def)
      then show ?thesis by blast
    qed
  qed
  have c: "pcp_release rid s = Inr s' \<Longrightarrow> ?thesis"
  proof -
    assume a: "pcp_release rid s = Inr s'"
    then obtain c where c: "current s = Some c"
      by (auto simp: pcp_release_def split: if_splits option.splits)
    define s1 where "s1 = disown rid
                        (s\<lparr>procs := (procs s)(c := (procs s c)\<lparr>prio := prio_orig (procs s c)\<rparr>)\<rparr>)"
    have s1: "wqs s1 = wqs s" "readyqueue s1 = readyqueue s" "current s1 = current s"
      "\<forall>p. status (procs s1 p) = status (procs s p)" "length (resources s1) = length (resources s)"
      by (auto simp: s1_def disown_def wqs_def map_update map_update_self)
    show ?thesis
    proof (cases "waitqueue (resources s ! rid)")
      case Nil
      with a c have "s' = s1"
        by (auto simp: pcp_release_def s1_def split: if_splits)
      then show ?thesis using s1 by (simp add: same_queues_def)
    next
      case (Cons w ws)
      with a c have r: "rid < length (resources s)" and
        w: "wake_up rid w s1 = Inr s'"
        by (auto simp: pcp_release_def s1_def Let_def split: if_splits)
      have "w \<in> set (wqs s1 ! rid)" using Cons r s1(1) by (simp add: wqs_def)
      with w r s1(5) have "woken rid w s1 s'"
        by (intro wake_up_effect) auto
      then have "woken rid w s s'"
        by (rule woken_cong) (use s1 in auto)
      then show ?thesis by blast
    qed
  qed
  have i: "pip_release rid s = Inr s' \<Longrightarrow> ?thesis"
  proof -
    assume a: "pip_release rid s = Inr s'"
    then obtain c where c: "current s = Some c"
      by (auto simp: pip_release_def split: if_splits option.splits)
    define s1 where "s1 = disown rid
                        (s\<lparr>procs := (procs s)(c := (procs s c)\<lparr>prio := prio_orig (procs s c)\<rparr>)\<rparr>)"
    have s1: "wqs s1 = wqs s" "readyqueue s1 = readyqueue s" "current s1 = current s"
      "\<forall>p. status (procs s1 p) = status (procs s p)" "length (resources s1) = length (resources s)"
      by (auto simp: s1_def disown_def wqs_def map_update map_update_self)
    show ?thesis
    proof (cases "waitqueue (resources s ! rid)")
      case Nil
      with a c have "s' = s1"
        by (auto simp: pip_release_def s1_def split: if_splits)
      then show ?thesis using s1 by (simp add: same_queues_def)
    next
      case (Cons first rest)
      define w where "w = scan_loop (\<lambda>waiter cur. prio (procs s1 waiter) < prio (procs s1 cur))
                  first (first # rest)"
      from Cons a c have r: "rid < length (resources s)" and
        w: "wake_up rid w s1 = Inr s'"
        by (auto simp: pip_release_def s1_def w_def Let_def split: if_splits)
      have "w \<in> set (first # rest)" unfolding w_def by (rule scan_loop_in)
      then have "w \<in> set (wqs s1 ! rid)" using Cons r s1(1) by (simp add: wqs_def)
      with w r s1(5) have "woken rid w s1 s'"
        by (intro wake_up_effect) auto
      then have "woken rid w s s'"
        by (rule woken_cong) (use s1 in auto)
      then show ?thesis by blast
    qed
  qed
  show ?thesis using assms f p c i by (cases sch) simp_all
qed

lemma detach_picked:
  assumes "n \<in> set (readyqueue s)" "detach n s = (next, s1)"
  shows "picked s next s1"
proof -
  have "count_list (readyqueue s) n \<noteq> 0" using assms(1) by (simp add: count_list_0_iff)
  then have "count_list (remove1 n (readyqueue s)) p + (if Some n = Some p then 1 else 0)
             = count_list (readyqueue s) p" for p
    by (cases "n = p") auto
  moreover have "next = Some n" "s1 = s\<lparr>readyqueue := remove1 n (readyqueue s)\<rparr>"
    using assms(2) by (auto simp: detach_def)
  ultimately show ?thesis by (simp add: picked_def wqs_def)
qed

lemma fifo_pick_next_picked: "fifo_pick_next s = (next, s1) \<Longrightarrow> picked s next s1"
proof (cases "readyqueue s")
  case Nil
  then show "fifo_pick_next s = (next, s1) \<Longrightarrow> picked s next s1"
    by (auto simp: fifo_pick_next_def picked_def)
next
  case (Cons a list)
  then show "fifo_pick_next s = (next, s1) \<Longrightarrow> picked s next s1"
    by (auto simp: fifo_pick_next_def intro: detach_picked)
qed

lemma scan_picked:
  "(case readyqueue s of [] \<Rightarrow> (None, s)
     | first # rest \<Rightarrow> detach (scan_loop test first (first # rest)) s) = (next, s1)
   \<Longrightarrow> picked s next s1"
proof (cases "readyqueue s")
  case Nil
  then show "(case readyqueue s of [] \<Rightarrow> (None, s)
     | first # rest \<Rightarrow> detach (scan_loop test first (first # rest)) s) = (next, s1)
   \<Longrightarrow> picked s next s1"
    by (auto simp: picked_def)
next
  case (Cons a list)
  have "scan_loop test a (a # list) \<in> set (readyqueue s)"
    unfolding Cons by (rule scan_loop_in)
  then show "(case readyqueue s of [] \<Rightarrow> (None, s)
     | first # rest \<Rightarrow> detach (scan_loop test first (first # rest)) s) = (next, s1)
   \<Longrightarrow> picked s next s1"
    using Cons by (auto intro: detach_picked)
qed

lemma pa_scan_status: "status (fst (pa_scan ps n q) p) = status (ps p)"
  by (induction q arbitrary: ps n) (auto simp: Let_def)

lemma pa_scan_mem: "snd (pa_scan ps n q) \<in> insert n (set q)"
  by (induction q arbitrary: ps n) (auto simp: Let_def)

lemma picked_frame:
  "picked s0 next s1 \<Longrightarrow> wqs s0 = wqs s \<Longrightarrow> current s0 = current s \<Longrightarrow>
   \<forall>p. status (procs s0 p) = status (procs s p) \<Longrightarrow> readyqueue s0 = readyqueue s \<Longrightarrow>
   picked s next s1"
  by (simp add: picked_def)

lemma pa_pick_next_picked:
  assumes "pa_pick_next s = (next, s1)"
  shows "picked s next s1"
proof (cases "readyqueue s")
  case Nil
  then show ?thesis using assms by (auto simp: pa_pick_next_def picked_def)
next
  case (Cons first rest)
  define r where "r = pa_scan (procs s) first (first # rest)"
  have d: "detach (snd r) (s\<lparr>procs := fst r\<rparr>) = (next, s1)"
    using assms Cons by (simp add: pa_pick_next_def r_def split: prod.splits)
  have "snd r \<in> set (readyqueue (s\<lparr>procs := fst r\<rparr>))"
    using pa_scan_mem [of "procs s" first "first # rest"] Cons by (simp add: r_def)
  then have "picked (s\<lparr>procs := fst r\<rparr>) next s1" using d by (rule detach_picked)
  then show ?thesis
    by (rule picked_frame) (simp_all add: wqs_def r_def pa_scan_status)
qed

lemma requeue_current_requeued: "requeued s (requeue_current s)"
  by (auto simp: requeued_def requeue_current_def unfinished_def running_def wqs_def
        split: option.splits)

lemma pa_requeue_requeued: "requeued s (pa_requeue s)"
  by (auto simp: requeued_def pa_requeue_def unfinished_def running_def wqs_def
        split: option.splits)

lemma requeued_picked: "requeued s s0 \<Longrightarrow> picked s0 next s1 \<Longrightarrow> scheduled s next s1"
  by (simp add: requeued_def picked_def scheduled_def)

lemma keep_or_pick:
  assumes "\<And>next s1. pick s = (next, s1) \<Longrightarrow> picked s next s1"
    and "(case current s of
        None \<Rightarrow> pick s
      | Some c \<Rightarrow>
          if status (procs s c) = PROCESS_WAIT then pick s
          else if age (procs s c) < lifespan (procs s c) then (Some c, s)
          else pick s) = (next, s1)"
  shows "scheduled s next s1"
proof (cases "\<exists>c. unfinished s c")
  case True
  then obtain c where c: "unfinished s c" ..
  then have "next = Some c" "s1 = s" using assms(2)
    by (auto simp: unfinished_def running_def)
  moreover have "unfinished s p \<longleftrightarrow> p = c" for p
    using c by (auto simp: unfinished_def running_def)
  ultimately show ?thesis by (simp add: scheduled_def)
next
  case False
  then have u: "\<not> unfinished s p" for p by blast
  have "pick s = (next, s1)" using assms(2) False
    by (auto simp: unfinished_def running_def split: option.splits if_splits)
  then have "picked s next s1" by (rule assms(1))
  then show ?thesis using u by (simp add: picked_def scheduled_def)
qed

lemma schedule_effect:
  assumes "schedule sch s = (next, s1)"
  shows "scheduled s next s1"
proof (cases sch)
  case fifo_scheduler
  then show ?thesis using assms
    by (auto simp: fifo_schedule_def intro!: keep_or_pick [of fifo_pick_next] fifo_pick_next_picked)
next
  case sjf_scheduler
  then show ?thesis using assms
    by (auto simp: sjf_schedule_def sjf_pick_next_def intro!: keep_or_pick [of sjf_pick_next] scan_picked)
next
  case srtf_scheduler
  then show ?thesis using assms
    by (auto simp: srtf_schedule_def srtf_pick_next_def
          intro!: requeued_picked [OF requeue_current_requeued] scan_picked)
next
  case rr_scheduler
  then show ?thesis using assms
    by (auto simp: rr_schedule_def
          intro!: requeued_picked [OF requeue_current_requeued] fifo_pick_next_picked)
next
  case prio_scheduler
  then show ?thesis using assms
    by (auto simp: prio_schedule_def prio_pick_next_def
          intro!: requeued_picked [OF requeue_current_requeued] scan_picked)
next
  case pa_scheduler
  then show ?thesis using assms
    by (auto simp: pa_schedule_def
          intro!: requeued_picked [OF pa_requeue_requeued] pa_pick_next_picked)
next
  case pcp_scheduler
  then show ?thesis using assms
    by (auto simp: prio_schedule_def prio_pick_next_def
          intro!: requeued_picked [OF requeue_current_requeued] scan_picked)
next
  case pip_scheduler
  then show ?thesis using assms
    by (auto simp: prio_schedule_def prio_pick_next_def
          intro!: requeued_picked [OF requeue_current_requeued] scan_picked)
qed

section \<open>The queue invariant\<close>

lemma queues_ok_init: "queues_ok (init n)"
  by (simp add: queues_ok_def init_def occ_def wqs_def running_def)

lemma occ_update:
  assumes "rid < length (wqs s)" "wqs s' = (wqs s)[rid := q]" "readyqueue s' = readyqueue s @ r"
  shows "occ s' p + count_list (wqs s ! rid) p = occ s p + count_list q p + count_list r p"
  using sum_list_map_update [OF assms(1), of "\<lambda>q. count_list q p" q] assms(2,3)
  by (simp add: occ_def)

lemma queues_okI:
  assumes "\<And>p. occ (st d) p = (if p \<in> live d \<and> \<not> running (st d) p then 1 else 0)"
    and "\<And>q p. q \<in> set (wqs (st d)) \<Longrightarrow> p \<in> set q \<Longrightarrow> status (procs (st d) p) = PROCESS_WAIT"
    and "\<And>p. p \<in> live d \<Longrightarrow> status (procs (st d) p) = PROCESS_RUNNING \<Longrightarrow> current (st d) = Some p"
    and "\<And>c. current (st d) = Some c \<Longrightarrow> c \<in> live d"
    and "\<And>c. current (st d) = Some c \<Longrightarrow> status (procs (st d) c) \<noteq> PROCESS_READY"
    and "\<And>p. p \<in> live d \<Longrightarrow> p < next_pid d"
  shows "queues_ok d"
  unfolding queues_ok_def using assms by blast

lemma queues_ok_occ:
  "queues_ok d \<Longrightarrow> occ (st d) p = (if p \<in> live d \<and> \<not> running (st d) p then 1 else 0)"
  unfolding queues_ok_def by blast

lemma queues_ok_wait:
  "queues_ok d \<Longrightarrow> q \<in> set (wqs (st d)) \<Longrightarrow> p \<in> set q \<Longrightarrow> status (procs (st d) p) = PROCESS_WAIT"
  unfolding queues_ok_def by blast

lemma queues_ok_running:
  "queues_ok d \<Longrightarrow> p \<in> live d \<Longrightarrow> status (procs (st d) p) = PROCESS_RUNNING \<Longrightarrow> current (st d) = Some p"
  unfolding queues_ok_def by blast

lemma queues_ok_current:
  "queues_ok d \<Longrightarrow> current (st d) = Some c \<Longrightarrow> c \<in> live d \<and> status (procs (st d) c) \<noteq> PROCESS_READY"
  unfolding queues_ok_def by blast

lemma queues_ok_pid: "queues_ok d \<Longrightarrow> p \<in> live d \<Longrightarrow> p < next_pid d"
  unfolding queues_ok_def by blast

lemma same_queues_ok:
  assumes ok: "queues_ok d" and sq: "same_queues (st d) s'"
  shows "queues_ok (d\<lparr>st := s'\<rparr>)"
proof -
  from sq have e: "wqs s' = wqs (st d)" "readyqueue s' = readyqueue (st d)"
    "current s' = current (st d)" "\<And>p. status (procs s' p) = status (procs (st d) p)"
    by (simp_all add: same_queues_def)
  have o: "occ s' p = occ (st d) p" "running s' p = running (st d) p" for p
    by (simp_all add: occ_def running_def e)
  show ?thesis
  proof (rule queues_okI)
    fix p
    show "occ (st (d\<lparr>st := s'\<rparr>)) p
        = (if p \<in> live (d\<lparr>st := s'\<rparr>) \<and> \<not> running (st (d\<lparr>st := s'\<rparr>)) p then 1 else 0)"
      using queues_ok_occ [OF ok, of p] by (simp add: o)
  next
    fix q p assume "q \<in> set (wqs (st (d\<lparr>st := s'\<rparr>)))" "p \<in> set q"
    then show "status (procs (st (d\<lparr>st := s'\<rparr>)) p) = PROCESS_WAIT"
      using queues_ok_wait [OF ok, of q p] by (simp add: e)
  next
    fix p assume "p \<in> live (d\<lparr>st := s'\<rparr>)" "status (procs (st (d\<lparr>st := s'\<rparr>)) p) = PROCESS_RUNNING"
    then show "current (st (d\<lparr>st := s'\<rparr>)) = Some p"
      using queues_ok_running [OF ok, of p] by (simp add: e)
  next
    fix k assume "current (st (d\<lparr>st := s'\<rparr>)) = Some k"
    then show "k \<in> live (d\<lparr>st := s'\<rparr>)" using queues_ok_current [OF ok, of k] by (simp add: e)
  next
    fix k assume "current (st (d\<lparr>st := s'\<rparr>)) = Some k"
    then show "status (procs (st (d\<lparr>st := s'\<rparr>)) k) \<noteq> PROCESS_READY"
      using queues_ok_current [OF ok, of k] by (simp add: e)
  next
    fix p assume "p \<in> live (d\<lparr>st := s'\<rparr>)"
    then show "p < next_pid (d\<lparr>st := s'\<rparr>)" using queues_ok_pid [OF ok] by simp
  qed
qed

lemma blocked_ok:
  assumes ok: "queues_ok d" and run: "running (st d) c" and b: "blocked_on rid c (st d) s'"
  shows "queues_ok (d\<lparr>st := s'\<rparr>)"
proof -
  let ?s = "st d"
  from b have r: "rid < length (wqs ?s)" and w: "wqs s' = (wqs ?s)[rid := wqs ?s ! rid @ [c]]"
    and q: "readyqueue s' = readyqueue ?s @ []" and cu: "current s' = current ?s"
    and stt: "\<And>p. status (procs s' p) = (if p = c then PROCESS_WAIT else status (procs ?s p))"
    by (simp_all add: blocked_on_def)
  have o: "occ s' p = occ ?s p + (if p = c then 1 else 0)" for p
    using occ_update [OF r w q, of p] by simp
  have c: "current ?s = Some c" "c \<in> live d"
    using run queues_ok_current [OF ok] by (auto simp: running_def)
  show ?thesis
  proof (rule queues_okI)
    fix p
    show "occ (st (d\<lparr>st := s'\<rparr>)) p
        = (if p \<in> live (d\<lparr>st := s'\<rparr>) \<and> \<not> running (st (d\<lparr>st := s'\<rparr>)) p then 1 else 0)"
      using queues_ok_occ [OF ok, of p] run c o [of p] by (auto simp: running_def cu stt)
  next
    fix q p assume a: "q \<in> set (wqs (st (d\<lparr>st := s'\<rparr>)))" "p \<in> set q"
    from a(1) w have "q \<in> set (wqs ?s) \<or> q = wqs ?s ! rid @ [c]"
      using set_update_subset_insert [of "wqs ?s" rid "wqs ?s ! rid @ [c]"] by auto
    moreover have "wqs ?s ! rid \<in> set (wqs ?s)" using r by simp
    ultimately have "p = c \<or> (\<exists>q \<in> set (wqs ?s). p \<in> set q)" using a(2) by auto
    then show "status (procs (st (d\<lparr>st := s'\<rparr>)) p) = PROCESS_WAIT"
      using queues_ok_wait [OF ok] by (auto simp: stt)
  next
    fix p assume "p \<in> live (d\<lparr>st := s'\<rparr>)" "status (procs (st (d\<lparr>st := s'\<rparr>)) p) = PROCESS_RUNNING"
    then show "current (st (d\<lparr>st := s'\<rparr>)) = Some p"
      using queues_ok_running [OF ok, of p] by (simp add: cu stt split: if_splits)
  next
    fix k assume "current (st (d\<lparr>st := s'\<rparr>)) = Some k"
    then show "k \<in> live (d\<lparr>st := s'\<rparr>)" using c by (simp add: cu)
  next
    fix k assume "current (st (d\<lparr>st := s'\<rparr>)) = Some k"
    then show "status (procs (st (d\<lparr>st := s'\<rparr>)) k) \<noteq> PROCESS_READY"
      using c by (simp add: cu stt)
  next
    fix p assume "p \<in> live (d\<lparr>st := s'\<rparr>)"
    then show "p < next_pid (d\<lparr>st := s'\<rparr>)" using queues_ok_pid [OF ok] by simp
  qed
qed

lemma occ_le_1: "queues_ok d \<Longrightarrow> occ (st d) p \<le> 1"
  using queues_ok_occ [of d p] by simp

lemma in_two_queues:
  assumes "p \<in> set (readyqueue s)" "q \<in> set (wqs s)" "p \<in> set q"
  shows "2 \<le> occ s p"
proof -
  have "count_list (readyqueue s) p \<noteq> 0" using assms(1) by (simp add: count_list_0_iff)
  then show ?thesis using wq_member_counted [OF assms(2,3)] by (simp add: occ_def)
qed

lemma woken_ok:
  assumes ok: "queues_ok d" and run: "running (st d) c" and wk: "woken rid w (st d) s'"
  shows "queues_ok (d\<lparr>st := s'\<rparr>)"
proof -
  let ?s = "st d"
  from wk have r: "rid < length (wqs ?s)" and wm: "w \<in> set (wqs ?s ! rid)"
    and ww: "status (procs ?s w) = PROCESS_WAIT"
    and w: "wqs s' = (wqs ?s)[rid := remove1 w (wqs ?s ! rid)]"
    and q: "readyqueue s' = readyqueue ?s @ [w]" and cu: "current s' = current ?s"
    and stt: "\<And>p. status (procs s' p) = (if p = w then PROCESS_READY else status (procs ?s p))"
    by (simp_all add: woken_def)
  have "count_list (wqs ?s ! rid) w \<noteq> 0" using wm by (simp add: count_list_0_iff)
  then have o: "occ s' p = occ ?s p" for p
    using occ_update [OF r w q, of p] by (cases "p = w") auto
  have c: "current ?s = Some c" "w \<noteq> c" using run ww by (auto simp: running_def)
  have rn: "running s' p = running ?s p" for p using c by (auto simp: running_def cu stt)
  have nw: "w \<notin> set q" if "q \<in> set (wqs s')" for q
  proof
    assume "w \<in> set q"
    moreover have "w \<in> set (readyqueue s')" by (simp add: q)
    ultimately have "2 \<le> occ s' w" using that by (intro in_two_queues)
    then show False using occ_le_1 [OF ok, of w] by (simp add: o)
  qed
  show ?thesis
  proof (rule queues_okI)
    fix p
    show "occ (st (d\<lparr>st := s'\<rparr>)) p
        = (if p \<in> live (d\<lparr>st := s'\<rparr>) \<and> \<not> running (st (d\<lparr>st := s'\<rparr>)) p then 1 else 0)"
      using queues_ok_occ [OF ok, of p] by (simp add: o rn)
  next
    fix q p assume a: "q \<in> set (wqs (st (d\<lparr>st := s'\<rparr>)))" "p \<in> set q"
    then have "p \<noteq> w" using nw [of q] by auto
    from a(1) w have "q \<in> set (wqs ?s) \<or> q = remove1 w (wqs ?s ! rid)"
      using set_update_subset_insert [of "wqs ?s" rid "remove1 w (wqs ?s ! rid)"] by auto
    moreover have "wqs ?s ! rid \<in> set (wqs ?s)" using r by simp
    moreover have "set (remove1 w (wqs ?s ! rid)) \<subseteq> set (wqs ?s ! rid)" by (rule set_remove1_subset)
    ultimately have "\<exists>q \<in> set (wqs ?s). p \<in> set q" using a(2) by auto
    then show "status (procs (st (d\<lparr>st := s'\<rparr>)) p) = PROCESS_WAIT"
      using queues_ok_wait [OF ok] \<open>p \<noteq> w\<close> by (auto simp: stt)
  next
    fix p assume "p \<in> live (d\<lparr>st := s'\<rparr>)" "status (procs (st (d\<lparr>st := s'\<rparr>)) p) = PROCESS_RUNNING"
    then show "current (st (d\<lparr>st := s'\<rparr>)) = Some p"
      using queues_ok_running [OF ok, of p] by (simp add: cu stt split: if_splits)
  next
    fix k assume "current (st (d\<lparr>st := s'\<rparr>)) = Some k"
    then show "k \<in> live (d\<lparr>st := s'\<rparr>)" using queues_ok_current [OF ok, of k] by (simp add: cu)
  next
    fix k assume "current (st (d\<lparr>st := s'\<rparr>)) = Some k"
    then show "status (procs (st (d\<lparr>st := s'\<rparr>)) k) \<noteq> PROCESS_READY"
      using queues_ok_current [OF ok, of k] c by (simp add: cu stt)
  next
    fix p assume "p \<in> live (d\<lparr>st := s'\<rparr>)"
    then show "p < next_pid (d\<lparr>st := s'\<rparr>)" using queues_ok_pid [OF ok] by simp
  qed
qed

lemma fork_ok:
  assumes ok: "queues_ok d"
  shows "queues_ok (fork l pr d)"
proof -
  let ?s = "st d" and ?n = "next_pid d" and ?d = "fork l pr d"
  have nl: "?n \<notin> live d" using queues_ok_pid [OF ok, of ?n] by auto
  then have o0: "occ ?s ?n = 0" using queues_ok_occ [OF ok, of ?n] by simp
  have cn: "current ?s \<noteq> Some ?n" using queues_ok_current [OF ok, of ?n] nl by auto
  have e: "wqs (st ?d) = wqs ?s" "readyqueue (st ?d) = readyqueue ?s @ [?n]"
    "current (st ?d) = current ?s" "live ?d = insert ?n (live d)" "next_pid ?d = Suc ?n"
    "\<And>p. status (procs (st ?d) p) = (if p = ?n then PROCESS_READY else status (procs ?s p))"
    by (simp_all add: fork_def wqs_def new_process_def)
  have o: "occ (st ?d) p = occ ?s p + (if p = ?n then 1 else 0)" for p
    by (simp add: occ_def e)
  have rn: "running (st ?d) p = running ?s p" for p using cn by (auto simp: running_def e)
  have nw: "?n \<notin> set q" if "q \<in> set (wqs ?s)" for q
  proof
    assume "?n \<in> set q"
    with that have "1 \<le> sum_list (map (\<lambda>q. count_list q ?n) (wqs ?s))"
      by (rule wq_member_counted)
    then have "1 \<le> occ ?s ?n" by (simp add: occ_def)
    then show False using o0 by simp
  qed
  show ?thesis
  proof (rule queues_okI)
    fix p
    show "occ (st ?d) p = (if p \<in> live ?d \<and> \<not> running (st ?d) p then 1 else 0)"
      using queues_ok_occ [OF ok, of p] o0 cn by (auto simp: o rn e running_def)
  next
    fix q p assume a: "q \<in> set (wqs (st ?d))" "p \<in> set q"
    then have "p \<noteq> ?n" using nw [of q] by (auto simp: e)
    then show "status (procs (st ?d) p) = PROCESS_WAIT"
      using queues_ok_wait [OF ok, of q p] a by (simp add: e)
  next
    fix p assume "p \<in> live ?d" "status (procs (st ?d) p) = PROCESS_RUNNING"
    then show "current (st ?d) = Some p"
      using queues_ok_running [OF ok, of p] by (simp add: e split: if_splits)
  next
    fix k assume "current (st ?d) = Some k"
    then show "k \<in> live ?d" using queues_ok_current [OF ok, of k] by (simp add: e)
  next
    fix k assume "current (st ?d) = Some k"
    then show "status (procs (st ?d) k) \<noteq> PROCESS_READY"
      using queues_ok_current [OF ok, of k] cn by (simp add: e)
  next
    fix p assume "p \<in> live ?d"
    then show "p < next_pid ?d" using queues_ok_pid [OF ok, of p] by (auto simp: e)
  qed
qed

lemma tick_ok: "queues_ok d \<Longrightarrow> queues_ok (d\<lparr>st := tick c (st d)\<rparr>)"
  by (rule same_queues_ok) (simp_all add: same_queues_def tick_def wqs_def)

lemma switch_queues [simp]:
  "wqs (switch prev next s) = wqs s" "readyqueue (switch prev next s) = readyqueue s"
  "current (switch prev next s) = next"
  by (simp_all add: switch_def set_status_def wqs_def Let_def split: option.splits)

lemma switch_status:
  "status (procs (switch prev next s) p) =
     (if next = Some p then PROCESS_RUNNING
      else if prev = Some p \<and> status (procs s p) = PROCESS_RUNNING then PROCESS_READY
      else status (procs s p))"
  by (simp add: switch_def set_status_def Let_def split: option.splits)

lemma retire_iff: "p \<in> retire s L \<longleftrightarrow> p \<in> L \<and> \<not> (running s p \<and> \<not> unfinished s p)"
  by (auto simp: retire_def running_def split: option.splits)

lemma schedule_ok:
  assumes ok: "queues_ok d" and sc: "scheduled (st d) next s1"
  shows "queues_ok (d\<lparr>st := switch (current (st d)) next s1, live := retire (st d) (live d)\<rparr>)"
proof -
  let ?s = "st d" and ?s' = "switch (current (st d)) next s1"
  let ?d = "d\<lparr>st := ?s', live := retire (st d) (live d)\<rparr>"
  from sc have w: "wqs s1 = wqs ?s"
    and stt: "\<And>p. status (procs s1 p) = status (procs ?s p)"
    and bal: "\<And>p. count_list (readyqueue s1) p + (if next = Some p then 1 else 0)
           = count_list (readyqueue ?s) p + (if unfinished ?s p then 1 else 0)"
    by (simp_all add: scheduled_def)
  have o: "occ ?s' p + (if next = Some p then 1 else 0)
         = occ ?s p + (if unfinished ?s p then 1 else 0)" for p
    using bal [of p] by (simp add: occ_def w)
  have rn: "running ?s' p \<longleftrightarrow> next = Some p" for p
    by (simp add: running_def switch_status)
  have un: "unfinished ?s p \<Longrightarrow> running ?s p" for p by (simp add: unfinished_def)
  have lv: "running ?s p \<Longrightarrow> p \<in> live d" for p
    using queues_ok_current [OF ok, of p] by (simp add: running_def)
  have nx: "p \<in> retire ?s (live d) \<and> (\<forall>q \<in> set (wqs ?s). p \<notin> set q)" if "next = Some p" for p
  proof (cases "unfinished ?s p")
    case True
    then have z: "occ ?s p = 0" using queues_ok_occ [OF ok, of p] un by simp
    have "\<forall>q \<in> set (wqs ?s). p \<notin> set q"
    proof (intro ballI notI)
      fix q assume "q \<in> set (wqs ?s)" "p \<in> set q"
      then have "1 \<le> sum_list (map (\<lambda>q. count_list q p) (wqs ?s))" by (rule wq_member_counted)
      then show False using z unfolding occ_def by linarith
    qed
    then show ?thesis using True un lv by (simp add: retire_iff)
  next
    case False
    then have c: "count_list (readyqueue ?s) p \<noteq> 0" using bal [of p] that by simp
    then have "occ ?s p \<noteq> 0" by (simp add: occ_def)
    then have "p \<in> live d \<and> \<not> running ?s p \<and> occ ?s p = 1"
      using queues_ok_occ [OF ok, of p] by (simp split: if_splits)
    moreover have "\<forall>q \<in> set (wqs ?s). p \<notin> set q"
    proof (intro ballI notI)
      fix q assume "q \<in> set (wqs ?s)" "p \<in> set q"
      then have "1 \<le> sum_list (map (\<lambda>q. count_list q p) (wqs ?s))" by (rule wq_member_counted)
      then show False using c calculation by (simp add: occ_def)
    qed
    ultimately show ?thesis by (simp add: retire_iff)
  qed
  show ?thesis
  proof (rule queues_okI)
    fix p
    have "occ ?s' p = (if p \<in> retire ?s (live d) \<and> next \<noteq> Some p then 1 else 0)"
      using o [of p] queues_ok_occ [OF ok, of p] un [of p] lv [of p]
      by (auto simp: retire_iff split: if_splits)
    then show "occ (st ?d) p = (if p \<in> live ?d \<and> \<not> running (st ?d) p then 1 else 0)"
      by (simp add: rn)
  next
    fix q p assume a: "q \<in> set (wqs (st ?d))" "p \<in> set q"
    then have "next \<noteq> Some p" using nx [of p] by (auto simp: w)
    moreover have "status (procs ?s p) = PROCESS_WAIT"
      using queues_ok_wait [OF ok, of q p] a by (simp add: w)
    ultimately show "status (procs (st ?d) p) = PROCESS_WAIT"
      by (simp add: switch_status stt)
  next
    fix p assume a: "p \<in> live ?d" "status (procs (st ?d) p) = PROCESS_RUNNING"
    show "current (st ?d) = Some p"
    proof (rule ccontr)
      assume "current (st ?d) \<noteq> Some p"
      then have n: "next \<noteq> Some p" by simp
      with a(2) have "status (procs ?s p) = PROCESS_RUNNING" "current ?s \<noteq> Some p"
        by (auto simp: switch_status stt split: if_splits)
      moreover have "p \<in> live d" using a(1) by (simp add: retire_iff)
      ultimately show False using queues_ok_running [OF ok, of p] by simp
    qed
  next
    fix k assume "current (st ?d) = Some k"
    then show "k \<in> live ?d" using nx [of k] by simp
  next
    fix k assume "current (st ?d) = Some k"
    then show "status (procs (st ?d) k) \<noteq> PROCESS_READY" by (simp add: switch_status)
  next
    fix p assume "p \<in> live ?d"
    then show "p < next_pid ?d" using queues_ok_pid [OF ok, of p] by (simp add: retire_iff)
  qed
qed

lemma step_ok:
  assumes ok: "queues_ok d" and st: "step mp sch e d = Some d'"
  shows "queues_ok d'"
proof (cases e)
  case (Fork l p)
  then show ?thesis using st fork_ok [OF ok] by auto
next
  case Tick
  then show ?thesis using st tick_ok [OF ok]
    by (auto split: option.splits if_splits)
next
  case (Acquire rid)
  with st obtain c b s' where c: "current (st d) = Some c" "running (st d) c"
    and a: "acquire mp sch rid (st d) = Inr (b, s')" and d': "d' = d\<lparr>st := s'\<rparr>"
    by (auto split: option.splits if_splits sum.splits)
  show ?thesis
  proof (cases b)
    case True
    then have "same_queues (st d) s'" using acquire_effect [OF a c(1)] by simp
    then show ?thesis unfolding d' by (rule same_queues_ok [OF ok])
  next
    case False
    then have "blocked_on rid c (st d) s'" using acquire_effect [OF a c(1)] by simp
    then show ?thesis unfolding d' by (rule blocked_ok [OF ok c(2)])
  qed
next
  case (Release rid)
  with st obtain c s' where c: "running (st d) c"
    and a: "release sch rid (st d) = Inr s'" and d': "d' = d\<lparr>st := s'\<rparr>"
    by (auto split: option.splits if_splits sum.splits)
  from release_effect [OF a] show ?thesis
  proof
    assume "same_queues (st d) s'"
    then show ?thesis unfolding d' by (rule same_queues_ok [OF ok])
  next
    assume "\<exists>w. woken rid w (st d) s'"
    then obtain w where "woken rid w (st d) s'" ..
    then show ?thesis unfolding d' by (rule woken_ok [OF ok c])
  qed
next
  case Schedule
  with st obtain nxt s1 where s: "schedule sch (st d) = (nxt, s1)"
    and d': "d' = d\<lparr>st := switch (current (st d)) nxt s1, live := retire (st d) (live d)\<rparr>"
    by (auto split: prod.splits)
  show ?thesis unfolding d' by (rule schedule_ok [OF ok schedule_effect [OF s]])
qed

lemma run_ok: "queues_ok d \<Longrightarrow> run mp sch es d = Some d' \<Longrightarrow> queues_ok d'"
proof (induction es arbitrary: d)
  case Nil
  then show ?case by simp
next
  case (Cons e es)
  then show ?case by (auto split: option.splits dest: step_ok)
qed

lemma acquire_succeeds:
  assumes "current s = Some c" "rid < length (resources s)"
  shows "\<exists>b s'. acquire mp sch rid s = Inr (b, s')"
proof -
  have "\<exists>b s'. fcfs_acquire rid s = Inr (b, s')"
    using assms by (auto simp: fcfs_acquire_def Let_def split: option.splits)
  moreover have "\<exists>b s'. pcp_acquire mp rid s = Inr (b, s')"
    using assms by (auto simp: pcp_acquire_def Let_def split: option.splits)
  moreover have "\<exists>b s'. pip_acquire rid s = Inr (b, s')"
    using assms by (auto simp: pip_acquire_def Let_def split: option.splits)
  ultimately show ?thesis by (cases sch) simp_all
qed

lemma wake_up_succeeds:
  "status (procs s w) = PROCESS_WAIT \<Longrightarrow> \<exists>s'. wake_up rid w s = Inr s'"
  by (simp add: wake_up_def)

lemma release_succeeds:
  assumes ok: "queues_ok d" and run: "running (st d) c"
    and rid: "rid < length (resources (st d))" and own: "owner (resources (st d) ! rid) = Some c"
  shows "\<exists>s'. release sch rid (st d) = Inr s'"
proof -
  let ?s = "st d" and ?q = "waitqueue (resources (st d) ! rid)"
  have c: "current ?s = Some c" using run by (simp add: running_def)
  have w: "status (procs ?s w) = PROCESS_WAIT" if "w \<in> set ?q" for w
  proof -
    have "?q \<in> set (wqs ?s)" using rid by (auto simp: wqs_def in_set_conv_nth intro!: exI [of _ rid])
    then show ?thesis using queues_ok_wait [OF ok _ that] by simp
  qed
  have nc: "w \<noteq> c" if "w \<in> set ?q" for w using w [OF that] run by (auto simp: running_def)
  have f: "\<exists>s'. fcfs_release rid ?s = Inr s'"
  proof (cases ?q)
    case Nil
    then show ?thesis using rid own c by (simp add: fcfs_release_def)
  next
    case (Cons first rest)
    then have "status (procs (disown rid ?s) first) = PROCESS_WAIT"
      using w [of first] by (simp add: disown_def)
    then show ?thesis using rid own c Cons by (simp add: fcfs_release_def wake_up_succeeds)
  qed
  have p: "\<exists>s'. prio_release rid ?s = Inr s'"
  proof (cases ?q)
    case Nil
    then show ?thesis using rid own c by (simp add: prio_release_def)
  next
    case (Cons first rest)
    let ?w = "scan_loop (\<lambda>waiter cur. prio (procs ?s waiter) < prio (procs ?s cur))
                  first (first # rest)"
    have "?w \<in> set ?q" unfolding Cons by (rule scan_loop_in)
    then have "status (procs (disown rid ?s) ?w) = PROCESS_WAIT"
      using w [of ?w] by (simp add: disown_def)
    then show ?thesis using rid own c Cons
      by (simp add: prio_release_def wake_up_succeeds del: scan_loop.simps)
  qed
  let ?s1 = "disown rid
      (?s\<lparr>procs := (procs ?s)(c := (procs ?s c)\<lparr>prio := prio_orig (procs ?s c)\<rparr>)\<rparr>)"
  have s1: "status (procs ?s1 w) = status (procs ?s w)" for w by (simp add: disown_def)
  have pc: "\<exists>s'. pcp_release rid ?s = Inr s'"
  proof (cases ?q)
    case Nil
    then show ?thesis using rid own c by (simp add: pcp_release_def)
  next
    case (Cons first rest)
    then have "status (procs ?s1 first) = PROCESS_WAIT" using w [of first] by (simp add: s1)
    then show ?thesis using rid own c Cons
      by (simp add: pcp_release_def Let_def wake_up_succeeds)
  qed
  have pi: "\<exists>s'. pip_release rid ?s = Inr s'"
  proof (cases ?q)
    case Nil
    then show ?thesis using rid own c by (simp add: pip_release_def)
  next
    case (Cons first rest)
    let ?w = "scan_loop (\<lambda>waiter cur. prio (procs ?s1 waiter) < prio (procs ?s1 cur))
                  first (first # rest)"
    have "?w \<in> set ?q" unfolding Cons by (rule scan_loop_in)
    then have "status (procs ?s1 ?w) = PROCESS_WAIT" using w [of ?w] by (simp add: s1)
    then show ?thesis using rid own c Cons
      by (simp add: pip_release_def Let_def wake_up_succeeds del: scan_loop.simps)
  qed
  show ?thesis using f p pc pi by (cases sch) simp_all
qed

lemma contract_calls_succeed:
  assumes "run mp sch es (init n) = Some d" and "running (st d) c"
    and "rid < length (resources (st d))"
  shows "step mp sch (Acquire rid) d \<noteq> None"
    and "owner (resources (st d) ! rid) = Some c \<Longrightarrow> step mp sch (Release rid) d \<noteq> None"
    and "step mp sch Tick d \<noteq> None" and "step mp sch Schedule d \<noteq> None"
    and "step mp sch (Fork l p) d \<noteq> None"
proof -
  have ok: "queues_ok d" using queues_ok_init assms(1) by (rule run_ok)
  have c: "current (st d) = Some c" using assms(2) by (simp add: running_def)
  show "step mp sch (Acquire rid) d \<noteq> None"
    using acquire_succeeds [OF c assms(3), of mp sch] assms(2) c by auto
  show "step mp sch (Release rid) d \<noteq> None" if "owner (resources (st d) ! rid) = Some c"
    using release_succeeds [OF ok assms(2,3) that, of sch] assms(2) c by auto
  show "step mp sch Tick d \<noteq> None" using assms(2) c by simp
  show "step mp sch Schedule d \<noteq> None" by (simp split: prod.splits)
  show "step mp sch (Fork l p) d \<noteq> None" by simp
qed

section \<open>Selection, as the specification words it\<close>

lemma find_first:
  "\<forall>x \<in> set xs. \<not> P x \<Longrightarrow> P w \<Longrightarrow> List.find P (xs @ w # ys) = Some w"
  by (induction xs) auto

lemma scan_max_split:
  fixes key :: "nat \<Rightarrow> 'k::linorder"
  assumes "\<forall>x \<in> set xs. key x < key n" "\<forall>y \<in> set ys. key y \<le> key n"
  shows "\<exists>xs' ys'. xs @ n # ys @ rest = xs' @ scan_loop (\<lambda>n c. key n < key c) n rest # ys'
           \<and> (\<forall>x \<in> set xs'. key x < key (scan_loop (\<lambda>n c. key n < key c) n rest))
           \<and> (\<forall>y \<in> set ys'. key y \<le> key (scan_loop (\<lambda>n c. key n < key c) n rest))"
  using assms
proof (induction rest arbitrary: xs n ys)
  case Nil
  then show ?case by auto
next
  case (Cons c rest)
  show ?case
  proof (cases "key n < key c")
    case True
    have "\<forall>x \<in> set (xs @ n # ys). key x < key c" using Cons.prems True by auto
    from Cons.IH [OF this, of "[]"] show ?thesis using True by simp
  next
    case False
    have "\<forall>y \<in> set (ys @ [c]). key y \<le> key n" using Cons.prems False by auto
    from Cons.IH [OF Cons.prems(1) this] show ?thesis using False by simp
  qed
qed

lemma scan_loop_first_max:
  fixes key :: "nat \<Rightarrow> 'k::linorder"
  shows "first_max_by key (first # rest)
         = Some (scan_loop (\<lambda>n c. key n < key c) first (first # rest))"
proof -
  let ?w = "scan_loop (\<lambda>n c. key n < key c) first rest"
  obtain xs ys where s: "first # rest = xs @ ?w # ys"
    "\<forall>x \<in> set xs. key x < key ?w" "\<forall>y \<in> set ys. key y \<le> key ?w"
    using scan_max_split [of "[]" key first "[]" rest] by auto
  have "List.find (\<lambda>x. \<forall>y \<in> set (xs @ ?w # ys). key y \<le> key x) (xs @ ?w # ys) = Some ?w"
    using s(2,3) by (intro find_first) (auto simp: not_le intro: less_imp_le)
  then show ?thesis by (simp add: first_max_by_def s(1) [symmetric] del: List.find.simps)
qed

lemma scan_min_split:
  fixes key :: "nat \<Rightarrow> 'k::linorder"
  assumes "\<forall>x \<in> set xs. key n < key x" "\<forall>y \<in> set ys. key n \<le> key y"
  shows "\<exists>xs' ys'. xs @ n # ys @ rest = xs' @ scan_loop (\<lambda>n c. key n > key c) n rest # ys'
           \<and> (\<forall>x \<in> set xs'. key (scan_loop (\<lambda>n c. key n > key c) n rest) < key x)
           \<and> (\<forall>y \<in> set ys'. key (scan_loop (\<lambda>n c. key n > key c) n rest) \<le> key y)"
  using assms
proof (induction rest arbitrary: xs n ys)
  case Nil
  then show ?case by auto
next
  case (Cons c rest)
  show ?case
  proof (cases "key n > key c")
    case True
    have "\<forall>x \<in> set (xs @ n # ys). key c < key x" using Cons.prems True by auto
    from Cons.IH [OF this, of "[]"] show ?thesis using True by simp
  next
    case False
    have "\<forall>y \<in> set (ys @ [c]). key n \<le> key y" using Cons.prems False by auto
    from Cons.IH [OF Cons.prems(1) this] show ?thesis using False by simp
  qed
qed

lemma scan_loop_first_min:
  fixes key :: "nat \<Rightarrow> 'k::linorder"
  shows "first_min_by key (first # rest)
         = Some (scan_loop (\<lambda>n c. key n > key c) first (first # rest))"
proof -
  let ?w = "scan_loop (\<lambda>n c. key n > key c) first rest"
  obtain xs ys where s: "first # rest = xs @ ?w # ys"
    "\<forall>x \<in> set xs. key ?w < key x" "\<forall>y \<in> set ys. key ?w \<le> key y"
    using scan_min_split [of "[]" key first "[]" rest] by auto
  have "List.find (\<lambda>x. \<forall>y \<in> set (xs @ ?w # ys). key x \<le> key y) (xs @ ?w # ys) = Some ?w"
    using s(2,3) by (intro find_first) (auto simp: not_le intro: less_imp_le)
  then show ?thesis by (simp add: first_min_by_def s(1) [symmetric] del: List.find.simps)
qed

section \<open>Evaluation and shared lemmas\<close>

lemmas driver_simps = init_def fork_def tick_def switch_def set_status_def retire_def running_def
  unfinished_def new_process_def Let_def

lemma first_min_by_Nil [simp]: "first_min_by key [] = None"
  by (simp add: first_min_by_def)

lemma first_max_by_Nil [simp]: "first_max_by key [] = None"
  by (simp add: first_max_by_def)

lemma requeue_current_unfinished:
  "unfinished s c \<Longrightarrow> requeue_current s = s\<lparr>readyqueue := readyqueue s @ [c]\<rparr>"
  by (auto simp: requeue_current_def unfinished_def running_def)

lemma requeue_current_idle: "(\<forall>c. \<not> unfinished s c) \<Longrightarrow> requeue_current s = s"
  by (auto simp: requeue_current_def unfinished_def running_def split: option.splits)

lemmas protocol_simps = fcfs_acquire_def fcfs_release_def prio_release_def pcp_acquire_def
  pcp_release_def pip_acquire_def pip_release_def wake_up_def disown_def

lemmas policy_simps = fifo_schedule_def fifo_pick_next_def sjf_schedule_def sjf_pick_next_def
  srtf_schedule_def srtf_pick_next_def rr_schedule_def prio_schedule_def prio_pick_next_def
  pa_schedule_def pa_pick_next_def pa_requeue_def requeue_current_def detach_def

lemma replicate_two: "replicate 2 x = [x, x]"
  by (simp add: numeral_2_eq_2)

section \<open>The claims\<close>

subsection \<open>C1: one running process, every other live process in one queue\<close>

lemma pip_trace_runs: "\<not> Option.is_none (run 64 pip_scheduler pip_trace (init 1))"
  by code_simp

lemma pip_trace_facts:
  "map_option
     (\<lambda>d. (0 \<in> live d, 1 \<in> live d, 2 \<in> live d, status (procs (st d) 0),
           status (procs (st d) 1), status (procs (st d) 2), readyqueue (st d), wqs (st d)))
     (run 64 pip_scheduler pip_trace (init 1))
   = Some (True, True, True, PROCESS_RUNNING, PROCESS_WAIT, PROCESS_READY, [2], [[1]])"
  by code_simp

text \<open>
  Claim C1. For each of the eight schedulers, in every state that the driver reaches from
  the initial state (no current process, empty ready queue, every resource unowned and
  without waiters) by any sequence of fork, tick, acquire, release and schedule steps
  that respects the contract: at most one live process has the status RUNNING; a live
  process that is not RUNNING occurs exactly once in the ready queue and all the wait
  queues taken together (so it is in one queue only, and once); the RUNNING process
  occurs in none; and a process that is not alive occurs in none.
\<close>

theorem C1_queue_membership:
  assumes "run MAX_PRIO sch es (init nr_resources) = Some d"
  shows "(\<forall>p \<in> live d. \<forall>q \<in> live d.
            status (procs (st d) p) = PROCESS_RUNNING \<and> status (procs (st d) q) = PROCESS_RUNNING
            \<longrightarrow> p = q)
       \<and> (\<forall>p \<in> live d.
            occ (st d) p = (if status (procs (st d) p) = PROCESS_RUNNING then 0 else 1))
       \<and> (\<forall>p. p \<notin> live d \<longrightarrow> occ (st d) p = 0)"
proof -
  have ok: "queues_ok d" using queues_ok_init assms by (rule run_ok)
  have r: "status (procs (st d) p) = PROCESS_RUNNING \<longleftrightarrow> running (st d) p" if "p \<in> live d" for p
  proof
    assume "status (procs (st d) p) = PROCESS_RUNNING"
    then show "running (st d) p"
      using queues_ok_running [OF ok that] by (simp add: running_def)
  next
    assume "running (st d) p"
    then show "status (procs (st d) p) = PROCESS_RUNNING"
      using queues_ok_current [OF ok, of p]
      by (cases "status (procs (st d) p)") (auto simp: running_def)
  qed
  have 1: "p = q" if "p \<in> live d" "q \<in> live d" "status (procs (st d) p) = PROCESS_RUNNING"
    "status (procs (st d) q) = PROCESS_RUNNING" for p q
    using queues_ok_running [OF ok that(1,3)] queues_ok_running [OF ok that(2,4)] by simp
  have 2: "occ (st d) p = (if status (procs (st d) p) = PROCESS_RUNNING then 0 else 1)"
    if "p \<in> live d" for p
    using queues_ok_occ [OF ok, of p] r [OF that] that by simp
  have 3: "occ (st d) p = 0" if "p \<notin> live d" for p
    using queues_ok_occ [OF ok, of p] that by simp
  show ?thesis using 1 2 3 by blast
qed

theorem C1_queue_membership_witness:
  "\<exists>d. run 64 pip_scheduler pip_trace (init 1) = Some d
       \<and> 0 \<in> live d \<and> 1 \<in> live d \<and> 2 \<in> live d
       \<and> status (procs (st d) 0) = PROCESS_RUNNING
       \<and> readyqueue (st d) = [2] \<and> wqs (st d) = [[1]]
       \<and> occ (st d) 0 = 0 \<and> occ (st d) 1 = 1 \<and> occ (st d) 2 = 1"
proof -
  obtain d where d: "run 64 pip_scheduler pip_trace (init 1) = Some d"
    using pip_trace_runs by (auto simp: Option.is_none_def)
  have f: "0 \<in> live d" "1 \<in> live d" "2 \<in> live d"
    "status (procs (st d) 0) = PROCESS_RUNNING" "status (procs (st d) 1) = PROCESS_WAIT"
    "status (procs (st d) 2) = PROCESS_READY" "readyqueue (st d) = [2]" "wqs (st d) = [[1]]"
    using pip_trace_facts unfolding d by simp_all
  have "\<forall>p \<in> live d.
          occ (st d) p = (if status (procs (st d) p) = PROCESS_RUNNING then 0 else 1)"
    using C1_queue_membership [OF d] by blast
  then have "occ (st d) 0 = 0" "occ (st d) 1 = 1" "occ (st d) 2 = 1"
    using f by auto
  then show ?thesis using d f by blast
qed

subsection \<open>C2: release under priority with aging\<close>

text \<open>
  Claim C2 says that release under the Priority+Aging scheduler wakes the waiter of the
  highest priority. \<open>pa_scheduler\<close> has \<open>.release = fcfs_release\<close>, which wakes the head
  of the wait queue. In the run \<open>pa_trace\<close>, process 0 owns resource 0 and the wait queue
  is \<open>[1, 2]\<close> with priorities 2 and 6: the release by process 0 wakes process 1 and
  leaves process 2, of the higher priority, waiting. The same events under
  \<open>prio_scheduler\<close>, whose release is \<open>prio_release\<close>, wake process 2.
\<close>

theorem C2_pa_release_wakes_fifo_head:
  "map_option (\<lambda>d. (current (st d), map owner (resources (st d)), wqs (st d),
                     map (\<lambda>p. prio (procs (st d) p)) [1, 2]))
     (run 64 pa_scheduler pa_trace (init 1))
     = Some (Some 0, [Some 0], [[1, 2]], [2, 6])
   \<and> map_option (\<lambda>d. (readyqueue (st d), wqs (st d)))
       (run 64 pa_scheduler (pa_trace @ [Release 0]) (init 1))
     = Some ([1], [[2]])
   \<and> map_option (\<lambda>d. (readyqueue (st d), wqs (st d)))
       (run 64 prio_scheduler (pa_trace @ [Release 0]) (init 1))
     = Some ([2], [[1]])"
  by (simp add: pa_trace_def driver_simps protocol_simps policy_simps wqs_def)

subsection \<open>C3: the priority inheritance protocol\<close>

lemma first_max_by_cong:
  "(\<And>x. x \<in> set q \<Longrightarrow> key x = key' x) \<Longrightarrow> first_max_by key q = first_max_by key' q"
  unfolding first_max_by_def by (rule find_cong) auto

lemma pip_lower_facts:
  "map_option
     (\<lambda>d. (current (st d), map owner (resources (st d)), readyqueue (st d),
           prio (procs (st d) 0), prio (procs (st d) 1), prio_orig (procs (st d) 1),
           map_sum id (\<lambda>r. (fst r, prio (procs (snd r) 1))) (pip_acquire 0 (st d))))
     (run 64 pip_scheduler pip_lower_trace (init 2))
   = Some (Some 0, [Some 1, None], [1], 1, 9, 9, Inr (False, 1))"
  by (simp add: pip_lower_trace_def driver_simps protocol_simps policy_simps replicate_two)

text \<open>
  Claim C3 as stated: under PIP an acquire on an occupied resource raises the owner's
  priority to the requester's, so the owner's priority after the call is never below
  what it was. It fails where the requester's priority is the lower one:
  \<open>r->owner->prio = current->prio\<close> has no comparison. In the run \<open>pip_lower_trace\<close>
  process 1 (priority 9, baseline 9) owns resource 0 and is ready, and the running
  process 0 has just released resource 1, which put it back to its baseline 1; its
  acquire of resource 0 is refused and leaves process 1 with priority 1.
\<close>

theorem C3_pip_acquire_lowers_counterexample:
  "\<not> (\<forall>es d rid ow s'.
        run 64 pip_scheduler es (init 2) = Some d \<longrightarrow>
        rid < length (resources (st d)) \<longrightarrow>
        owner (resources (st d) ! rid) = Some ow \<longrightarrow>
        pip_acquire rid (st d) = Inr (False, s') \<longrightarrow>
        prio (procs (st d) ow) \<le> prio (procs s' ow))"
proof
  assume a: "\<forall>es d rid ow s'.
        run 64 pip_scheduler es (init 2) = Some d \<longrightarrow>
        rid < length (resources (st d)) \<longrightarrow>
        owner (resources (st d) ! rid) = Some ow \<longrightarrow>
        pip_acquire rid (st d) = Inr (False, s') \<longrightarrow>
        prio (procs (st d) ow) \<le> prio (procs s' ow)"
  obtain d where d: "run 64 pip_scheduler pip_lower_trace (init 2) = Some d"
    using pip_lower_facts by (cases "run 64 pip_scheduler pip_lower_trace (init 2)") auto
  have f: "map owner (resources (st d)) = [Some 1, None]" "prio (procs (st d) 1) = 9"
    "map_sum id (\<lambda>r. (fst r, prio (procs (snd r) 1))) (pip_acquire 0 (st d)) = Inr (False, 1)"
    using pip_lower_facts unfolding d by simp_all
  from f(1) have o: "0 < length (resources (st d))" "owner (resources (st d) ! 0) = Some 1"
    by (auto simp: map_eq_Cons_conv)
  from f(3) obtain s' where s': "pip_acquire 0 (st d) = Inr (False, s')" "prio (procs s' 1) = 1"
    by (cases "pip_acquire 0 (st d)") auto
  have "prio (procs (st d) 1) \<le> prio (procs s' 1)"
    using a [rule_format, OF d o s'(1)] .
  then have "(9 :: u32) \<le> 1" unfolding f(2) s'(2) .
  then show False by (simp add: word_le_nat_alt)
qed

text \<open>
  Claim C3, amended. With the PIP protocol, for a valid resource and a current process \<open>c\<close>:
  acquire on a resource without owner makes \<open>c\<close> the owner and returns true, and no
  process record changes (no priority changes); acquire on a resource owned by \<open>ow\<close>
  returns false, sets the priority of \<open>ow\<close> to the priority of \<open>c\<close> (the assignment is
  unconditional: it raises the owner's priority where that of \<open>c\<close> is higher and lowers
  it where that of \<open>c\<close> is lower) and changes the priority of no
  other process (one level, nothing is propagated), never changes \<open>prio_orig\<close>, and
  blocks \<open>c\<close>: status WAIT, at the tail of the wait queue; release by a process that is
  not the owner fails the assertion; release by the owner sets its priority to its own
  \<open>prio_orig\<close>, clears the ownership and wakes the waiter that \<open>first_max_by\<close> selects on
  the priorities: the first waiter, in queue order, of the highest priority.
\<close>

theorem C3_pip_protocol:
  assumes "resource_id < length (resources s)" and "current s = Some c"
  shows "(owner (resources s ! resource_id) = None \<longrightarrow>
            pip_acquire resource_id s =
              Inr (True, s\<lparr>resources := (resources s)
                     [resource_id := (resources s ! resource_id)\<lparr>owner := Some c\<rparr>]\<rparr>))
       \<and> (\<forall>ow. owner (resources s ! resource_id) = Some ow \<longrightarrow>
            (\<exists>s'. pip_acquire resource_id s = Inr (False, s')
               \<and> prio (procs s' ow) = prio (procs s c)
               \<and> (\<forall>p. p \<noteq> ow \<longrightarrow> prio (procs s' p) = prio (procs s p))
               \<and> (\<forall>p. prio_orig (procs s' p) = prio_orig (procs s p))
               \<and> status (procs s' c) = PROCESS_WAIT
               \<and> (\<forall>p. p \<noteq> c \<longrightarrow> status (procs s' p) = status (procs s p))
               \<and> resources s' = (resources s)
                    [resource_id := (resources s ! resource_id)
                       \<lparr>waitqueue := waitqueue (resources s ! resource_id) @ [c]\<rparr>]
               \<and> readyqueue s' = readyqueue s \<and> current s' = current s))
       \<and> (owner (resources s ! resource_id) \<noteq> Some c \<longrightarrow>
            pip_release resource_id s = Inl Assertion_failed)
       \<and> (owner (resources s ! resource_id) = Some c \<longrightarrow>
            waitqueue (resources s ! resource_id) = [] \<longrightarrow>
            pip_release resource_id s =
              Inr (s\<lparr>procs := (procs s)(c := (procs s c)\<lparr>prio := prio_orig (procs s c)\<rparr>),
                     resources := (resources s)
                       [resource_id := (resources s ! resource_id)\<lparr>owner := None\<rparr>]\<rparr>))
       \<and> (\<forall>w. owner (resources s ! resource_id) = Some c \<longrightarrow>
            c \<notin> set (waitqueue (resources s ! resource_id)) \<longrightarrow>
            first_max_by (\<lambda>p. prio (procs s p)) (waitqueue (resources s ! resource_id)) = Some w \<longrightarrow>
            status (procs s w) = PROCESS_WAIT \<longrightarrow>
            pip_release resource_id s =
              Inr (s\<lparr>procs := (procs s)
                       (c := (procs s c)\<lparr>prio := prio_orig (procs s c)\<rparr>,
                        w := (procs s w)\<lparr>status := PROCESS_READY\<rparr>),
                     resources := (resources s)
                       [resource_id := (resources s ! resource_id)
                          \<lparr>owner := None,
                            waitqueue := remove1 w (waitqueue (resources s ! resource_id))\<rparr>],
                     readyqueue := readyqueue s @ [w]\<rparr>))"
proof (intro conjI allI impI)
  show "pip_acquire resource_id s =
      Inr (True, s\<lparr>resources := (resources s)
             [resource_id := (resources s ! resource_id)\<lparr>owner := Some c\<rparr>]\<rparr>)"
    if "owner (resources s ! resource_id) = None"
    using assms that by (simp add: pip_acquire_def)
next
  fix ow assume "owner (resources s ! resource_id) = Some ow"
  then show "\<exists>s'. pip_acquire resource_id s = Inr (False, s')
               \<and> prio (procs s' ow) = prio (procs s c)
               \<and> (\<forall>p. p \<noteq> ow \<longrightarrow> prio (procs s' p) = prio (procs s p))
               \<and> (\<forall>p. prio_orig (procs s' p) = prio_orig (procs s p))
               \<and> status (procs s' c) = PROCESS_WAIT
               \<and> (\<forall>p. p \<noteq> c \<longrightarrow> status (procs s' p) = status (procs s p))
               \<and> resources s' = (resources s)
                    [resource_id := (resources s ! resource_id)
                       \<lparr>waitqueue := waitqueue (resources s ! resource_id) @ [c]\<rparr>]
               \<and> readyqueue s' = readyqueue s \<and> current s' = current s"
    using assms by (simp add: pip_acquire_def Let_def)
next
  assume "owner (resources s ! resource_id) \<noteq> Some c"
  then show "pip_release resource_id s = Inl Assertion_failed"
    using assms by (simp add: pip_release_def)
next
  assume "owner (resources s ! resource_id) = Some c" "waitqueue (resources s ! resource_id) = []"
  then show "pip_release resource_id s =
      Inr (s\<lparr>procs := (procs s)(c := (procs s c)\<lparr>prio := prio_orig (procs s c)\<rparr>),
             resources := (resources s)
               [resource_id := (resources s ! resource_id)\<lparr>owner := None\<rparr>]\<rparr>)"
    using assms by (simp add: pip_release_def disown_def)
next
  fix w
  let ?q = "waitqueue (resources s ! resource_id)"
  let ?s1 = "disown resource_id
               (s\<lparr>procs := (procs s)(c := (procs s c)\<lparr>prio := prio_orig (procs s c)\<rparr>)\<rparr>)"
  assume o: "owner (resources s ! resource_id) = Some c" and n: "c \<notin> set ?q"
    and f: "first_max_by (\<lambda>p. prio (procs s p)) ?q = Some w"
    and st: "status (procs s w) = PROCESS_WAIT"
  from f obtain first rest where q: "?q = first # rest"
    by (cases ?q) (auto simp: first_max_by_def)
  have "first_max_by (\<lambda>p. prio (procs ?s1 p)) ?q = first_max_by (\<lambda>p. prio (procs s p)) ?q"
    using n by (intro first_max_by_cong) (auto simp: disown_def)
  then have w: "scan_loop (\<lambda>waiter cur. prio (procs ?s1 waiter) < prio (procs ?s1 cur))
                  first (first # rest) = w"
    using f scan_loop_first_max [of "\<lambda>p. prio (procs ?s1 p)" first rest] by (simp add: q)
  have "w \<in> set ?q" using w scan_loop_in [of _ first rest] q by metis
  then have "w \<noteq> c" using n by auto
  have "pip_release resource_id s = wake_up resource_id w ?s1"
    using assms o by (simp add: pip_release_def Let_def q w del: scan_loop.simps)
  also have "\<dots> =
      Inr (s\<lparr>procs := (procs s)
               (c := (procs s c)\<lparr>prio := prio_orig (procs s c)\<rparr>,
                w := (procs s w)\<lparr>status := PROCESS_READY\<rparr>),
             resources := (resources s)
               [resource_id := (resources s ! resource_id)
                  \<lparr>owner := None, waitqueue := remove1 w ?q\<rparr>],
             readyqueue := readyqueue s @ [w]\<rparr>)"
    using assms st \<open>w \<noteq> c\<close> by (simp add: wake_up_def disown_def)
  finally show "pip_release resource_id s =
      Inr (s\<lparr>procs := (procs s)
               (c := (procs s c)\<lparr>prio := prio_orig (procs s c)\<rparr>,
                w := (procs s w)\<lparr>status := PROCESS_READY\<rparr>),
             resources := (resources s)
               [resource_id := (resources s ! resource_id)
                  \<lparr>owner := None, waitqueue := remove1 w ?q\<rparr>],
             readyqueue := readyqueue s @ [w]\<rparr>)" .
qed

theorem C3_pip_protocol_witness:
  "current contend_state = Some 5 \<and> current wait_state = Some 0
   \<and> map_sum id (\<lambda>r. (fst r, map owner (resources (snd r)), map (\<lambda>p. prio (procs (snd r) p)) [0, 1, 5]))
        (pip_acquire 1 contend_state)
       = Inr (True, [Some 0, Some 5], [1, 3, 6])
   \<and> (\<exists>s'. pip_acquire 0 contend_state = Inr (False, s') \<and> prio (procs s' 0) = 6
         \<and> prio (procs s' 1) = 3 \<and> status (procs s' 5) = PROCESS_WAIT \<and> wqs s' = [[1, 5], []])
   \<and> pip_release 0 contend_state = Inl Assertion_failed
   \<and> first_max_by (\<lambda>p. prio (procs wait_state p)) [1, 2, 3] = Some 2
   \<and> map_sum id (\<lambda>s. (map owner (resources s), wqs s, readyqueue s, status (procs s 2),
                       prio (procs s 0)))
        (pip_release 0 wait_state)
       = Inr ([None, None], [[1, 3], []], [4, 2], PROCESS_READY, 1)"
proof -
  have m: "first_max_by (\<lambda>p. prio (procs wait_state p)) [1, 2, 3] = Some 2"
    by (simp add: first_max_by_def wait_state_def)
  have a: "1 < length (resources contend_state)" "0 < length (resources contend_state)"
    "current contend_state = Some 5" "0 < length (resources wait_state)"
    "current wait_state = Some 0"
    by (simp_all add: contend_state_def wait_state_def)
  obtain s' where s': "pip_acquire 0 contend_state = Inr (False, s')" "prio (procs s' 0) = 6"
    "prio (procs s' 1) = 3" "status (procs s' 5) = PROCESS_WAIT" "wqs s' = [[1, 5], []]"
    using C3_pip_protocol [OF a(2,3)] by (auto simp: contend_state_def wqs_def)
  have 1: "map_sum id (\<lambda>r. (fst r, map owner (resources (snd r)), map (\<lambda>p. prio (procs (snd r) p)) [0, 1, 5]))
        (pip_acquire 1 contend_state) = Inr (True, [Some 0, Some 5], [1, 3, 6])"
    using C3_pip_protocol [OF a(1,3)] by (simp add: contend_state_def)
  have 2: "pip_release 0 contend_state = Inl Assertion_failed"
    using C3_pip_protocol [OF a(2,3)] by (simp add: contend_state_def)
  have 3: "map_sum id (\<lambda>s. (map owner (resources s), wqs s, readyqueue s, status (procs s 2),
                       prio (procs s 0)))
        (pip_release 0 wait_state)
       = Inr ([None, None], [[1, 3], []], [4, 2], PROCESS_READY, 1)"
    using C3_pip_protocol [OF a(4,5)] m by (simp add: wait_state_def wqs_def)
  show ?thesis using a s' 1 2 3 m by blast
qed

subsection \<open>C4: the priority ceiling protocol\<close>

lemma pcp_trace_facts:
  "map_option (\<lambda>d. (map owner (resources (st d)), prio (procs (st d) 0)))
     (run 64 pcp_scheduler pcp_trace (init 2))
   = Some ([Some 0, None], 5)"
  by (simp add: pcp_trace_def driver_simps protocol_simps policy_simps replicate_two)

text \<open>
  Claim C4 as stated: under PCP a process that holds a resource has the priority
  \<open>MAX_PRIO\<close> for as long as it holds it. It fails when a process holds two resources:
  \<open>pcp_release\<close> resets the priority at the first release, while the other resource is
  still held. In \<open>pcp_trace\<close> process 0 (priority 5) acquires resources 0 and 1 and
  releases resource 1: it still owns resource 0, with priority 5.
\<close>

theorem C4_pcp_nested_release_counterexample:
  "\<not> (\<forall>es d rid p.
        run 64 pcp_scheduler es (init 2) = Some d \<longrightarrow>
        rid < length (resources (st d)) \<longrightarrow>
        owner (resources (st d) ! rid) = Some p \<longrightarrow>
        prio (procs (st d) p) = 64)"
proof
  assume a: "\<forall>es d rid p.
        run 64 pcp_scheduler es (init 2) = Some d \<longrightarrow>
        rid < length (resources (st d)) \<longrightarrow>
        owner (resources (st d) ! rid) = Some p \<longrightarrow>
        prio (procs (st d) p) = 64"
  obtain d where d: "run 64 pcp_scheduler pcp_trace (init 2) = Some d"
    using pcp_trace_facts by (cases "run 64 pcp_scheduler pcp_trace (init 2)") auto
  have f: "map owner (resources (st d)) = [Some 0, None]" "prio (procs (st d) 0) = 5"
    using pcp_trace_facts unfolding d by simp_all
  from f(1) have "length (resources (st d)) = 2" "owner (resources (st d) ! 0) = Some 0"
    by (auto simp: map_eq_Cons_conv)
  then have "prio (procs (st d) 0) = 64" using a [rule_format, OF d, of 0 0] by simp
  then show False using f(2) by simp
qed

lemma wake_up_prio:
  "wake_up rid w s = Inr s' \<Longrightarrow>
   prio (procs s' p) = prio (procs s p) \<and> prio_orig (procs s' p) = prio_orig (procs s p)"
  by (auto simp: wake_up_def split: if_splits)

lemma prio_schedule_procs: "procs (snd (prio_schedule s)) = procs s"
  by (simp add: prio_schedule_def prio_pick_next_def requeue_current_def detach_def
        split: option.splits list.splits)

lemma switch_prio:
  "prio (procs (switch prev nxt s) p) = prio (procs s p)"
  "prio_orig (procs (switch prev nxt s) p) = prio_orig (procs s p)"
  by (simp_all add: switch_def set_status_def Let_def split: option.splits)

lemma pcp_acquire_prio:
  "pcp_acquire mp rid s = Inr (b, s') \<Longrightarrow> prio (procs s p) = mp \<Longrightarrow>
   prio (procs s' p) = mp \<and> prio_orig (procs s' p) = prio_orig (procs s p)"
  by (auto simp: pcp_acquire_def Let_def split: if_splits option.splits)

lemma pcp_release_cases:
  assumes "pcp_release rid s = Inr s'" "current s = Some c"
  shows "s' = disown rid (s\<lparr>procs := (procs s)(c := (procs s c)\<lparr>prio := prio_orig (procs s c)\<rparr>)\<rparr>)
       \<or> (\<exists>w. wake_up rid w
                 (disown rid (s\<lparr>procs := (procs s)(c := (procs s c)\<lparr>prio := prio_orig (procs s c)\<rparr>)\<rparr>))
               = Inr s')"
proof (cases "waitqueue (resources s ! rid)")
  case Nil
  then show ?thesis using assms by (simp add: pcp_release_def split: if_splits)
next
  case (Cons w ws)
  then show ?thesis using assms by (auto simp: pcp_release_def Let_def split: if_splits)
qed

lemma pcp_step_keeps:
  assumes "step mp pcp_scheduler e d = Some d'" and "p < next_pid d"
    and "\<not> (case e of Release _ \<Rightarrow> current (st d) = Some p | _ \<Rightarrow> False)"
    and "prio (procs (st d) p) = mp"
  shows "prio (procs (st d') p) = mp
       \<and> prio_orig (procs (st d') p) = prio_orig (procs (st d) p) \<and> p < next_pid d'"
proof (cases e)
  case (Fork l pr)
  with assms(1) have "d' = fork l pr d" by simp
  then show ?thesis using assms(2,4) by (simp add: fork_def)
next
  case Tick
  with assms(1) obtain c where "d' = d\<lparr>st := tick c (st d)\<rparr>"
    by (auto split: option.splits if_splits)
  then show ?thesis using assms(2,4) by (auto simp: tick_def)
next
  case (Acquire rid)
  with assms(1) obtain b s' where "pcp_acquire mp rid (st d) = Inr (b, s')" "d' = d\<lparr>st := s'\<rparr>"
    by (auto split: option.splits if_splits sum.splits)
  then show ?thesis using pcp_acquire_prio [of mp rid "st d" b s' p] assms(2,4) by simp
next
  case (Release rid)
  with assms(1,3) obtain c s' where c: "current (st d) = Some c" "c \<noteq> p"
    and r: "pcp_release rid (st d) = Inr s'" and d': "d' = d\<lparr>st := s'\<rparr>"
    by (auto split: option.splits if_splits sum.splits)
  let ?s1 = "disown rid
      ((st d)\<lparr>procs := (procs (st d))(c := (procs (st d) c)\<lparr>prio := prio_orig (procs (st d) c)\<rparr>)\<rparr>)"
  have s1: "prio (procs ?s1 p) = mp" "prio_orig (procs ?s1 p) = prio_orig (procs (st d) p)"
    using c(2) assms(4) by (simp_all add: disown_def)
  from pcp_release_cases [OF r c(1)]
  have "prio (procs s' p) = mp \<and> prio_orig (procs s' p) = prio_orig (procs (st d) p)"
  proof
    assume "s' = ?s1"
    then show ?thesis using s1 by simp
  next
    assume "\<exists>w. wake_up rid w ?s1 = Inr s'"
    then obtain w where "wake_up rid w ?s1 = Inr s'" ..
    from wake_up_prio [OF this, of p] show ?thesis using s1 by simp
  qed
  then show ?thesis using assms(2) by (simp add: d')
next
  case Schedule
  with assms(1) have d': "d' = d\<lparr>st := switch (current (st d)) (fst (prio_schedule (st d)))
                                    (snd (prio_schedule (st d))),
                            live := retire (st d) (live d)\<rparr>"
    by (auto split: prod.splits)
  show ?thesis using assms(2,4) by (simp add: d' switch_prio prio_schedule_procs)
qed

lemma pcp_run_keeps:
  "run_without_release mp pcp_scheduler p es d = Some d' \<Longrightarrow> p < next_pid d \<Longrightarrow>
   prio (procs (st d) p) = mp \<Longrightarrow>
   prio (procs (st d') p) = mp \<and> prio_orig (procs (st d') p) = prio_orig (procs (st d) p)"
proof (induction es arbitrary: d)
  case Nil
  then show ?case by simp
next
  case (Cons e es)
  from Cons.prems(1) obtain d1 where
    n: "\<not> (case e of Release _ \<Rightarrow> current (st d) = Some p | _ \<Rightarrow> False)"
    and s: "step mp pcp_scheduler e d = Some d1"
    and r: "run_without_release mp pcp_scheduler p es d1 = Some d'"
    by (auto split: if_splits option.splits)
  from pcp_step_keeps [OF s Cons.prems(2) n Cons.prems(3)]
  have k: "prio (procs (st d1) p) = mp"
    "prio_orig (procs (st d1) p) = prio_orig (procs (st d) p)" "p < next_pid d1"
    by simp_all
  from Cons.IH [OF r k(3) k(1)] show ?case by (simp add: k(2))
qed

text \<open>
  Claim C4, amended. Under PCP an admitted acquire makes the requester \<open>p\<close> the owner and
  sets its priority to \<open>MAX_PRIO\<close>; the priority of \<open>p\<close> is \<open>MAX_PRIO\<close> after every
  sequence of driver steps in which \<open>p\<close> itself releases nothing; and a release by
  \<open>p\<close>, of whatever resource, sets its priority to exactly the \<open>prio_orig\<close> it had at the
  acquire.
\<close>

theorem C4_pcp_priority_until_release:
  assumes "current (st d0) = Some p" and "p < next_pid d0"
    and "pcp_acquire MAX_PRIO rid (st d0) = Inr (True, s1)"
    and "run_without_release MAX_PRIO pcp_scheduler p es (d0\<lparr>st := s1\<rparr>) = Some d"
  shows "owner (resources s1 ! rid) = Some p
       \<and> prio (procs s1 p) = MAX_PRIO
       \<and> prio (procs (st d) p) = MAX_PRIO
       \<and> (\<forall>rid' s'. current (st d) = Some p \<longrightarrow> pcp_release rid' (st d) = Inr s' \<longrightarrow>
             prio (procs s' p) = prio_orig (procs (st d0) p))"
proof -
  have a: "owner (resources s1 ! rid) = Some p" "prio (procs s1 p) = MAX_PRIO"
    "prio_orig (procs s1 p) = prio_orig (procs (st d0) p)"
    using assms(1,3) by (auto simp: pcp_acquire_def Let_def split: if_splits option.splits)
  have k: "prio (procs (st d) p) = MAX_PRIO" "prio_orig (procs (st d) p) = prio_orig (procs (st d0) p)"
    using pcp_run_keeps [OF assms(4)] assms(2) a(2,3) by simp_all
  have r: "prio (procs s' p) = prio_orig (procs (st d0) p)"
    if c: "current (st d) = Some p" and r: "pcp_release rid' (st d) = Inr s'" for rid' s'
  proof -
    let ?s1 = "disown rid'
      ((st d)\<lparr>procs := (procs (st d))(p := (procs (st d) p)\<lparr>prio := prio_orig (procs (st d) p)\<rparr>)\<rparr>)"
    have s1: "prio (procs ?s1 p) = prio_orig (procs (st d0) p)" by (simp add: disown_def k(2))
    from pcp_release_cases [OF r c] show ?thesis
    proof
      assume "s' = ?s1"
      then show ?thesis using s1 by simp
    next
      assume "\<exists>w. wake_up rid' w ?s1 = Inr s'"
      then obtain w where "wake_up rid' w ?s1 = Inr s'" ..
      from wake_up_prio [OF this, of p] show ?thesis using s1 by simp
    qed
  qed
  show ?thesis using a(1,2) k(1) r by blast
qed

lemma pcp_holding_facts:
  "map_option (\<lambda>d. (current (st d), map owner (resources (st d)), readyqueue (st d),
        prio (procs (st d) 1), prio_orig (procs (st d) 0),
        map_sum id (\<lambda>s. (map owner (resources s), prio (procs s 0))) (pcp_release 1 (st d))))
     (run_without_release 64 pcp_scheduler 0 pcp_holding (pcp_start\<lparr>st := pcp_held\<rparr>))
   = Some (Some 0, [Some 0, Some 0], [1], 9, 5, Inr ([Some 0, None], 5))"
  by (simp add: pcp_holding_def pcp_start_def pcp_held_def driver_simps protocol_simps policy_simps)

theorem C4_pcp_priority_until_release_witness:
  "current (st pcp_start) = Some 0 \<and> 0 < next_pid pcp_start
   \<and> prio (procs (st pcp_start) 0) = 5
   \<and> pcp_acquire 64 0 (st pcp_start) = Inr (True, pcp_held)
   \<and> (\<exists>d. run_without_release 64 pcp_scheduler 0 pcp_holding (pcp_start\<lparr>st := pcp_held\<rparr>) = Some d
         \<and> map owner (resources (st d)) = [Some 0, Some 0]
         \<and> prio (procs (st d) 0) = 64
         \<and> (\<exists>s'. pcp_release 1 (st d) = Inr s' \<and> map owner (resources s') = [Some 0, None]
               \<and> prio (procs s' 0) = 5))"
proof -
  have h: "current (st pcp_start) = Some 0" "0 < next_pid pcp_start"
    "prio (procs (st pcp_start) 0) = 5" "prio_orig (procs (st pcp_start) 0) = 5"
    by (simp_all add: pcp_start_def)
  have a: "pcp_acquire 64 0 (st pcp_start) = Inr (True, pcp_held)"
    by (simp add: pcp_acquire_def pcp_held_def pcp_start_def)
  obtain d where d: "run_without_release 64 pcp_scheduler 0 pcp_holding (pcp_start\<lparr>st := pcp_held\<rparr>) = Some d"
    using pcp_holding_facts
    by (cases "run_without_release 64 pcp_scheduler 0 pcp_holding (pcp_start\<lparr>st := pcp_held\<rparr>)") auto
  have f: "current (st d) = Some 0" "map owner (resources (st d)) = [Some 0, Some 0]"
    "map_sum id (\<lambda>s. (map owner (resources s), prio (procs s 0))) (pcp_release 1 (st d))
       = Inr ([Some 0, None], 5)"
    using pcp_holding_facts unfolding d by simp_all
  from f(3) obtain s' where s': "pcp_release 1 (st d) = Inr s'"
    "map owner (resources s') = [Some 0, None]"
    by (cases "pcp_release 1 (st d)") auto
  have t: "prio (procs (st d) 0) = 64"
    "\<forall>rid' s'. current (st d) = Some 0 \<longrightarrow> pcp_release rid' (st d) = Inr s' \<longrightarrow>
             prio (procs s' 0) = prio_orig (procs (st pcp_start) 0)"
    using C4_pcp_priority_until_release [OF h(1,2) a d] by blast+
  have "prio (procs s' 0) = 5" using t(2) f(1) s'(1) h(4) by simp
  with s' have "\<exists>s'. pcp_release 1 (st d) = Inr s' \<and> map owner (resources s') = [Some 0, None]
               \<and> prio (procs s' 0) = 5"
    by (intro exI [of _ s']) simp
  with d f(2) t(1) have "\<exists>d. run_without_release 64 pcp_scheduler 0 pcp_holding (pcp_start\<lparr>st := pcp_held\<rparr>) = Some d
         \<and> map owner (resources (st d)) = [Some 0, Some 0]
         \<and> prio (procs (st d) 0) = 64
         \<and> (\<exists>s'. pcp_release 1 (st d) = Inr s' \<and> map owner (resources s') = [Some 0, None]
               \<and> prio (procs s' 0) = 5)"
    by (intro exI [of _ d]) simp
  then show ?thesis using h(1,2,3) a by simp
qed

subsection \<open>C5: priority with aging\<close>

lemma aged_Cons:
  "c \<notin> set rest \<Longrightarrow> aged (ps(c := (ps c)\<lparr>prio := prio (ps c) + 1\<rparr>)) rest = aged ps (c # rest)"
  by (auto simp: aged_def fun_eq_iff)

lemma pa_scan_eq:
  "distinct q \<Longrightarrow> n \<notin> set q \<Longrightarrow>
   pa_scan ps n q =
     (aged ps q, scan_loop (\<lambda>n c. prio (aged ps q n) < prio (aged ps q c)) n q)"
proof (induction q arbitrary: ps n)
  case Nil
  then show ?case by (simp add: aged_def)
next
  case (Cons c rest)
  let ?ps1 = "ps(c := (ps c)\<lparr>prio := prio (ps c) + 1\<rparr>)"
  let ?n = "if prio (?ps1 n) < prio (?ps1 c) then c else n"
  have a: "aged ?ps1 rest = aged ps (c # rest)" using Cons.prems by (intro aged_Cons) simp
  have "?n \<notin> set rest" "distinct rest" using Cons.prems by auto
  then have "pa_scan ?ps1 ?n rest =
     (aged ?ps1 rest, scan_loop (\<lambda>n c. prio (aged ?ps1 rest n) < prio (aged ?ps1 rest c)) ?n rest)"
    by (rule Cons.IH [rotated])
  moreover have "prio (aged ps (c # rest) n) = prio (?ps1 n)" "prio (aged ps (c # rest) c) = prio (?ps1 c)"
    using Cons.prems by (auto simp: aged_def)
  ultimately show ?case by (simp add: a Let_def)
qed

lemma pa_scan_first:
  assumes "distinct (first # rest)"
  shows "pa_scan ps first (first # rest) =
     (aged ps (first # rest),
      scan_loop (\<lambda>n c. prio (aged ps (first # rest) n) < prio (aged ps (first # rest) c))
        first (first # rest))"
proof -
  let ?ps1 = "ps(first := (ps first)\<lparr>prio := prio (ps first) + 1\<rparr>)"
  have a: "aged ?ps1 rest = aged ps (first # rest)" using assms by (intro aged_Cons) simp
  have "pa_scan ps first (first # rest) = pa_scan ?ps1 first rest" by (simp add: Let_def)
  also have "\<dots> = (aged ?ps1 rest,
      scan_loop (\<lambda>n c. prio (aged ?ps1 rest n) < prio (aged ?ps1 rest c)) first rest)"
    using assms by (intro pa_scan_eq) auto
  finally show ?thesis by (simp add: a)
qed

lemma pa_pick_next_eq:
  assumes "distinct (readyqueue s)"
  shows "pa_pick_next s =
     (first_max_by (\<lambda>p. prio (aged (procs s) (readyqueue s) p)) (readyqueue s),
      case first_max_by (\<lambda>p. prio (aged (procs s) (readyqueue s) p)) (readyqueue s) of
        None \<Rightarrow> s
      | Some n \<Rightarrow> s\<lparr>procs := aged (procs s) (readyqueue s),
                     readyqueue := remove1 n (readyqueue s)\<rparr>)"
proof (cases "readyqueue s")
  case Nil
  then show ?thesis by (simp add: pa_pick_next_def)
next
  case (Cons first rest)
  then have d: "distinct (first # rest)" using assms by simp
  show ?thesis
    using scan_loop_first_max [of "\<lambda>p. prio (aged (procs s) (first # rest) p)" first rest]
    by (simp add: pa_pick_next_def Cons pa_scan_first [OF d] detach_def del: scan_loop.simps pa_scan.simps)
qed

lemma word_inc_less: "(x :: u32) \<noteq> - 1 \<Longrightarrow> x < x + 1"
  using inc_less_eq_triv_imp linorder_not_less by blast

lemma pa_requeue_unfinished:
  "unfinished s c \<Longrightarrow>
   pa_requeue s = s\<lparr>readyqueue := readyqueue s @ [c],
                     procs := (procs s)(c := (procs s c)\<lparr>prio := prio_orig (procs s c)\<rparr>)\<rparr>"
  by (auto simp: pa_requeue_def unfinished_def running_def)

lemma pa_requeue_idle: "(\<forall>c. \<not> unfinished s c) \<Longrightarrow> pa_requeue s = s"
  by (auto simp: pa_requeue_def unfinished_def running_def split: option.splits)

lemma pa_requeue_distinct:
  assumes "distinct (readyqueue s)" "\<forall>c. current s = Some c \<longrightarrow> c \<notin> set (readyqueue s)"
  shows "distinct (readyqueue (pa_requeue s))"
  using assms by (auto simp: pa_requeue_def split: option.splits)

lemma pa_requeue_others:
  assumes "\<forall>c. current s = Some c \<longrightarrow> c \<notin> set (readyqueue s)" "p \<in> set (readyqueue s)"
  shows "procs (pa_requeue s) p = procs s p" "p \<in> set (readyqueue (pa_requeue s))"
  using assms by (auto simp: pa_requeue_def split: option.splits)

lemma pa_schedule_procs:
  assumes "distinct (readyqueue (pa_requeue s))" "readyqueue (pa_requeue s) \<noteq> []"
  shows "procs (snd (pa_schedule s)) = aged (procs (pa_requeue s)) (readyqueue (pa_requeue s))"
proof -
  obtain first rest where "readyqueue (pa_requeue s) = first # rest"
    using assms(2) by (cases "readyqueue (pa_requeue s)") auto
  then have "first_max_by (\<lambda>p. prio (aged (procs (pa_requeue s)) (readyqueue (pa_requeue s)) p))
               (readyqueue (pa_requeue s)) \<noteq> None"
    using scan_loop_first_max
      [of "\<lambda>p. prio (aged (procs (pa_requeue s)) (readyqueue (pa_requeue s)) p)" first rest]
    by simp
  then show ?thesis
    by (auto simp: pa_schedule_def pa_pick_next_eq [OF assms(1)])
qed

lemma pa_schedule_fst:
  assumes "distinct (readyqueue (pa_requeue s))"
  shows "fst (pa_schedule s) =
           first_max_by (\<lambda>p. prio (procs (snd (pa_schedule s)) p)) (readyqueue (pa_requeue s))"
proof (cases "readyqueue (pa_requeue s) = []")
  case True
  then show ?thesis by (simp add: pa_schedule_def pa_pick_next_eq [OF assms])
next
  case False
  show ?thesis
    unfolding pa_schedule_procs [OF assms False]
    by (simp add: pa_schedule_def pa_pick_next_eq [OF assms])
qed

lemma pa_schedule_queue:
  assumes "distinct (readyqueue (pa_requeue s))"
  shows "readyqueue (snd (pa_schedule s)) =
           (case fst (pa_schedule s) of
              None \<Rightarrow> readyqueue (pa_requeue s)
            | Some n \<Rightarrow> remove1 n (readyqueue (pa_requeue s)))"
  by (simp add: pa_schedule_def pa_pick_next_eq [OF assms] split: option.splits)

lemma pa_wrap_facts:
  "map_option
     (\<lambda>d. (current (st d), readyqueue (st d), prio (procs (st d) 0),
           fst (pa_schedule (st d)), readyqueue (snd (pa_schedule (st d))),
           prio (procs (snd (pa_schedule (st d))) 0)))
     (run 64 pa_scheduler pa_wrap_trace (init 1))
   = Some (None, [0, 1], - 1, Some 1, [0], 0)"
  by (simp add: pa_wrap_trace_def driver_simps protocol_simps policy_simps)

text \<open>
  Claim C5 as stated: the priority of every process that waits in the ready queue is
  strictly larger after \<open>pa_schedule\<close>. It fails at the largest unsigned value, where
  \<open>cur->prio++\<close> wraps around to 0. In the run \<open>pa_wrap_trace\<close> process 0 is forked with
  priority \<open>0xFFFFFFFF\<close> and process 1 with priority 0: \<open>pa_schedule\<close> leaves process 0
  in the ready queue with priority 0 and returns process 1.
\<close>

theorem C5_pa_aging_wraps_counterexample:
  "\<not> (\<forall>es d p.
        run 64 pa_scheduler es (init 1) = Some d \<longrightarrow>
        p \<in> set (readyqueue (st d)) \<longrightarrow>
        prio (procs (st d) p) < prio (procs (snd (pa_schedule (st d))) p))"
proof
  assume a: "\<forall>es d p.
        run 64 pa_scheduler es (init 1) = Some d \<longrightarrow>
        p \<in> set (readyqueue (st d)) \<longrightarrow>
        prio (procs (st d) p) < prio (procs (snd (pa_schedule (st d))) p)"
  obtain d where d: "run 64 pa_scheduler pa_wrap_trace (init 1) = Some d"
    using pa_wrap_facts by (cases "run 64 pa_scheduler pa_wrap_trace (init 1)") auto
  have f: "readyqueue (st d) = [0, 1]" "prio (procs (st d) 0) = - 1"
    "prio (procs (snd (pa_schedule (st d))) 0) = 0"
    using pa_wrap_facts unfolding d by simp_all
  have "0 \<in> set (readyqueue (st d))" by (simp add: f(1))
  then have "prio (procs (st d) 0) < prio (procs (snd (pa_schedule (st d))) 0)"
    using a [rule_format, OF d] by blast
  then show False by (simp add: f(2,3))
qed

text \<open>
  Claim C5, amended. In \<open>pa_schedule\<close>, on a state whose ready queue has no duplicates and does
  not hold the current process: a current process that is not waiting and has
  \<open>age < lifespan\<close> gets its priority reset to \<open>prio_orig\<close> and goes to the tail of the
  ready queue, and this before the scan; the scan then adds exactly 1 to the priority of
  every process that was in the ready queue when \<open>pa_schedule\<close> was called (the processes
  that waited through the tick; what the scan does to the requeued process is claim
  C10), so that the priority of each of them is strictly larger afterwards, unless it
  was the largest unsigned value, where the C increment wraps around; and the process
  returned is the first one, in scan order, of the largest priority after the scan,
  which leaves the queue.
\<close>

theorem C5_pa_schedule:
  assumes "distinct (readyqueue s)" and "\<forall>c. current s = Some c \<longrightarrow> c \<notin> set (readyqueue s)"
  shows "(\<forall>c. unfinished s c \<longrightarrow>
            pa_requeue s =
              s\<lparr>readyqueue := readyqueue s @ [c],
                procs := (procs s)(c := (procs s c)\<lparr>prio := prio_orig (procs s c)\<rparr>)\<rparr>)
       \<and> ((\<forall>c. \<not> unfinished s c) \<longrightarrow> pa_requeue s = s)
       \<and> (\<forall>p \<in> set (readyqueue s).
            prio (procs (snd (pa_schedule s)) p) = prio (procs s p) + 1)
       \<and> (\<forall>p \<in> set (readyqueue s).
            prio (procs s p) \<noteq> - 1 \<longrightarrow> prio (procs s p) < prio (procs (snd (pa_schedule s)) p))
       \<and> fst (pa_schedule s) =
           first_max_by (\<lambda>p. prio (procs (snd (pa_schedule s)) p)) (readyqueue (pa_requeue s))
       \<and> readyqueue (snd (pa_schedule s)) =
           (case fst (pa_schedule s) of
              None \<Rightarrow> readyqueue (pa_requeue s)
            | Some n \<Rightarrow> remove1 n (readyqueue (pa_requeue s)))"
proof -
  have d: "distinct (readyqueue (pa_requeue s))" using assms by (rule pa_requeue_distinct)
  have inc: "prio (procs (snd (pa_schedule s)) p) = prio (procs s p) + 1"
    if "p \<in> set (readyqueue s)" for p
  proof -
    have p: "procs (pa_requeue s) p = procs s p" "p \<in> set (readyqueue (pa_requeue s))"
      using pa_requeue_others [OF assms(2) that] by auto
    then have "readyqueue (pa_requeue s) \<noteq> []" by auto
    then show ?thesis using p by (simp add: pa_schedule_procs [OF d] aged_def)
  qed
  have 1: "\<forall>c. unfinished s c \<longrightarrow>
            pa_requeue s =
              s\<lparr>readyqueue := readyqueue s @ [c],
                procs := (procs s)(c := (procs s c)\<lparr>prio := prio_orig (procs s c)\<rparr>)\<rparr>"
    using pa_requeue_unfinished by blast
  have 2: "(\<forall>c. \<not> unfinished s c) \<longrightarrow> pa_requeue s = s"
    using pa_requeue_idle by blast
  have 3: "\<forall>p \<in> set (readyqueue s).
            prio (procs (snd (pa_schedule s)) p) = prio (procs s p) + 1"
    using inc by blast
  have 4: "\<forall>p \<in> set (readyqueue s).
            prio (procs s p) \<noteq> - 1 \<longrightarrow> prio (procs s p) < prio (procs (snd (pa_schedule s)) p)"
    using inc word_inc_less by simp
  show ?thesis using 1 2 3 4 pa_schedule_fst [OF d] pa_schedule_queue [OF d] by blast
qed

theorem C5_pa_schedule_witness:
  "unfinished pa_state 0 \<and> readyqueue pa_state = [1, 2]
   \<and> readyqueue (pa_requeue pa_state) = [1, 2, 0]
   \<and> prio (procs (pa_requeue pa_state) 0) = 5
   \<and> map (\<lambda>p. prio (procs pa_state p)) [1, 2] = [4, 2]
   \<and> map (\<lambda>p. prio (procs (snd (pa_schedule pa_state)) p)) [1, 2] = [5, 3]
   \<and> map (\<lambda>p. prio (procs pa_idle_state p)) [1, 2, 3] = [4, 7, 7]
   \<and> map (\<lambda>p. prio (procs (snd (pa_schedule pa_idle_state)) p)) [1, 2, 3] = [5, 8, 8]
   \<and> fst (pa_schedule pa_idle_state) = Some 2
   \<and> readyqueue (snd (pa_schedule pa_idle_state)) = [1, 3]"
proof -
  have h: "distinct (readyqueue pa_state)"
    "\<forall>c. current pa_state = Some c \<longrightarrow> c \<notin> set (readyqueue pa_state)"
    "distinct (readyqueue pa_idle_state)"
    "\<forall>c. current pa_idle_state = Some c \<longrightarrow> c \<notin> set (readyqueue pa_idle_state)"
    by (simp_all add: pa_state_def pa_idle_state_def)
  have u: "unfinished pa_state 0" "readyqueue pa_state = [1, 2]"
    "map (\<lambda>p. prio (procs pa_state p)) [1, 2] = [4, 2]"
    "map (\<lambda>p. prio (procs pa_idle_state p)) [1, 2, 3] = [4, 7, 7]"
    "\<forall>c. \<not> unfinished pa_idle_state c" "readyqueue pa_idle_state = [1, 2, 3]"
    by (simp_all add: pa_state_def pa_idle_state_def unfinished_def running_def)
  have r: "pa_requeue pa_state =
      pa_state\<lparr>readyqueue := readyqueue pa_state @ [0],
        procs := (procs pa_state)(0 := (procs pa_state 0)\<lparr>prio := prio_orig (procs pa_state 0)\<rparr>)\<rparr>"
    using C5_pa_schedule [OF h(1,2)] u(1) by blast
  have 1: "readyqueue (pa_requeue pa_state) = [1, 2, 0]" "prio (procs (pa_requeue pa_state) 0) = 5"
    unfolding r by (simp_all add: pa_state_def)
  have 2: "map (\<lambda>p. prio (procs (snd (pa_schedule pa_state)) p)) [1, 2] = [5, 3]"
    using C5_pa_schedule [OF h(1,2)] u(2,3) by simp
  have i: "pa_requeue pa_idle_state = pa_idle_state"
    using C5_pa_schedule [OF h(3,4)] u(5) by blast
  have 3: "map (\<lambda>p. prio (procs (snd (pa_schedule pa_idle_state)) p)) [1, 2, 3] = [5, 8, 8]"
    using C5_pa_schedule [OF h(3,4)] u(4,6) by simp
  have 4: "fst (pa_schedule pa_idle_state) = Some 2"
    using C5_pa_schedule [OF h(3,4)] 3 by (simp add: i u(6) first_max_by_def)
  have 5: "readyqueue (snd (pa_schedule pa_idle_state)) = [1, 3]"
    using C5_pa_schedule [OF h(3,4)] 4 by (simp add: i u(6))
  show ?thesis using u 1 2 3 4 5 by blast
qed

subsection \<open>C6: shortest remaining time first\<close>

lemma find_last:
  "List.find P (xs @ [c]) = Some c \<Longrightarrow> c \<notin> set xs \<Longrightarrow> x \<in> set xs \<Longrightarrow> \<not> P x"
  by (induction xs) (auto split: if_splits)

lemma find_holds: "List.find P q = Some c \<Longrightarrow> P c"
  by (induction q) (auto split: if_splits)

lemma first_min_by_last:
  assumes "first_min_by key (xs @ [c]) = Some c" "c \<notin> set xs" "x \<in> set xs"
  shows "key c < key x"
proof (rule ccontr)
  let ?P = "\<lambda>x. \<forall>y \<in> set (xs @ [c]). key x \<le> key y"
  assume "\<not> key c < key x"
  then have le: "key x \<le> key c" by simp
  have f: "List.find ?P (xs @ [c]) = Some c" using assms(1) by (simp add: first_min_by_def)
  have c: "?P c" using f by (rule find_holds)
  have "\<not> ?P x" using f assms(2,3) by (rule find_last)
  then obtain y where "y \<in> set (xs @ [c])" "\<not> key x \<le> key y" by blast
  moreover have "key c \<le> key y" using c calculation(1) by blast
  ultimately show False using le by (meson order_trans)
qed

lemma srtf_pick_next_eq:
  "srtf_pick_next s =
     (first_min_by (remaining s) (readyqueue s),
      case first_min_by (remaining s) (readyqueue s) of
        None \<Rightarrow> s
      | Some n \<Rightarrow> s\<lparr>readyqueue := remove1 n (readyqueue s)\<rparr>)"
proof (cases "readyqueue s")
  case Nil
  then show ?thesis by (simp add: srtf_pick_next_def)
next
  case (Cons first rest)
  have "(\<lambda>next cur. lifespan (procs s next) - age (procs s next)
                            > lifespan (procs s cur) - age (procs s cur))
        = (\<lambda>n c. remaining s n > remaining s c)"
    by (simp add: remaining_def)
  then show ?thesis
    using scan_loop_first_min [of "remaining s" first rest]
    by (simp add: srtf_pick_next_def Cons detach_def del: scan_loop.simps)
qed

lemma remaining_requeue [simp]: "remaining (requeue_current s) = remaining s"
  by (auto simp: remaining_def requeue_current_def fun_eq_iff split: option.splits)

text \<open>
  Claim C6. In \<open>srtf_schedule\<close>: a current process that is not waiting and has
  \<open>age < lifespan\<close> is appended to the tail of the ready queue before the selection
  (and nothing is requeued otherwise); the selection returns the first process, in scan
  order, of the smallest remaining time \<open>lifespan - age\<close> over the whole queue (none when
  the queue is empty) and removes it from the queue; so the process that just ran, being
  last, is not selected when a process scanned before it has a remaining time that is
  not larger.
\<close>

theorem C6_srtf_schedule:
  "(\<forall>c. unfinished s c \<longrightarrow> requeue_current s = s\<lparr>readyqueue := readyqueue s @ [c]\<rparr>)
   \<and> ((\<forall>c. \<not> unfinished s c) \<longrightarrow> requeue_current s = s)
   \<and> fst (srtf_schedule s) = first_min_by (remaining s) (readyqueue (requeue_current s))
   \<and> snd (srtf_schedule s) =
       (case fst (srtf_schedule s) of
          None \<Rightarrow> requeue_current s
        | Some n \<Rightarrow> (requeue_current s)\<lparr>readyqueue := remove1 n (readyqueue (requeue_current s))\<rparr>)
   \<and> (\<forall>c p. unfinished s c \<longrightarrow> c \<notin> set (readyqueue s) \<longrightarrow> p \<in> set (readyqueue s) \<longrightarrow>
         remaining s p \<le> remaining s c \<longrightarrow> fst (srtf_schedule s) \<noteq> Some c)"
proof (intro conjI allI impI)
  show "requeue_current s = s\<lparr>readyqueue := readyqueue s @ [c]\<rparr>" if "unfinished s c" for c
    using that by (rule requeue_current_unfinished)
  show "requeue_current s = s" if "\<forall>c. \<not> unfinished s c"
    using that by (rule requeue_current_idle)
  show f: "fst (srtf_schedule s) = first_min_by (remaining s) (readyqueue (requeue_current s))"
    by (simp add: srtf_schedule_def srtf_pick_next_eq)
  show "snd (srtf_schedule s) =
       (case fst (srtf_schedule s) of
          None \<Rightarrow> requeue_current s
        | Some n \<Rightarrow> (requeue_current s)\<lparr>readyqueue := remove1 n (readyqueue (requeue_current s))\<rparr>)"
    by (simp add: srtf_schedule_def srtf_pick_next_eq)
  show "fst (srtf_schedule s) \<noteq> Some c"
    if "unfinished s c" "c \<notin> set (readyqueue s)" "p \<in> set (readyqueue s)"
      "remaining s p \<le> remaining s c" for c p
  proof
    assume "fst (srtf_schedule s) = Some c"
    then have "first_min_by (remaining s) (readyqueue s @ [c]) = Some c"
      using f requeue_current_unfinished [OF that(1)] by simp
    then have "remaining s c < remaining s p" using that(2,3) by (rule first_min_by_last)
    then show False using that(4) by simp
  qed
qed

theorem C6_srtf_schedule_witness:
  "unfinished srtf_state 0 \<and> 0 \<notin> set (readyqueue srtf_state)
   \<and> readyqueue (requeue_current srtf_state) = [2, 1, 0]
   \<and> remaining srtf_state 1 = 3 \<and> remaining srtf_state 0 = 3 \<and> remaining srtf_state 2 = 4
   \<and> fst (srtf_schedule srtf_state) = Some 1
   \<and> readyqueue (snd (srtf_schedule srtf_state)) = [2, 0]
   \<and> fst (srtf_schedule srtf_state) \<noteq> Some 0"
proof -
  have u: "unfinished srtf_state 0" "0 \<notin> set (readyqueue srtf_state)"
    "1 \<in> set (readyqueue srtf_state)" "remaining srtf_state 1 \<le> remaining srtf_state 0"
    by (simp_all add: srtf_state_def unfinished_def running_def remaining_def)
  have r: "remaining srtf_state 1 = 3" "remaining srtf_state 0 = 3" "remaining srtf_state 2 = 4"
    by (simp_all add: srtf_state_def remaining_def)
  have q: "readyqueue (requeue_current srtf_state) = [2, 1, 0]"
    using C6_srtf_schedule [of srtf_state] u(1) by (simp add: srtf_state_def)
  have m: "first_min_by (remaining srtf_state) [2, 1, 0] = Some 1"
    by (simp add: first_min_by_def remaining_def srtf_state_def)
  have f: "fst (srtf_schedule srtf_state) = Some 1"
    using C6_srtf_schedule [of srtf_state] q m by simp
  have s: "readyqueue (snd (srtf_schedule srtf_state)) = [2, 0]"
    using C6_srtf_schedule [of srtf_state] q f by simp
  have n: "fst (srtf_schedule srtf_state) \<noteq> Some 0"
    using C6_srtf_schedule [of srtf_state] u by blast
  show ?thesis using u r q f s n by blast
qed

subsection \<open>C7: the FCFS protocol\<close>

text \<open>
  Claim C7. With the FCFS protocol, for a valid resource and a current process \<open>c\<close>:
  acquire on a resource without owner makes \<open>c\<close> the owner, returns true and changes
  nothing else; acquire on an owned resource sets the status of \<open>c\<close> to WAIT, appends
  \<open>c\<close> to the tail of that resource's wait queue, returns false and changes nothing
  else; release by the owner clears the ownership and, when the wait queue is \<open>w # ws\<close>,
  makes exactly its head \<open>w\<close> READY and appends it to the tail of the ready queue, the
  wait queue keeping the others \<open>ws\<close> in their order: no waiter is skipped and none
  is duplicated.
\<close>

theorem C7_fcfs_protocol:
  assumes "resource_id < length (resources s)" and "current s = Some c"
  shows "(owner (resources s ! resource_id) = None \<longrightarrow>
            fcfs_acquire resource_id s =
              Inr (True, s\<lparr>resources := (resources s)
                     [resource_id := (resources s ! resource_id)\<lparr>owner := Some c\<rparr>]\<rparr>))
       \<and> (owner (resources s ! resource_id) \<noteq> None \<longrightarrow>
            fcfs_acquire resource_id s =
              Inr (False, s\<lparr>procs := (procs s)(c := (procs s c)\<lparr>status := PROCESS_WAIT\<rparr>),
                     resources := (resources s)
                       [resource_id := (resources s ! resource_id)
                          \<lparr>waitqueue := waitqueue (resources s ! resource_id) @ [c]\<rparr>]\<rparr>))
       \<and> (owner (resources s ! resource_id) = Some c \<longrightarrow>
            waitqueue (resources s ! resource_id) = [] \<longrightarrow>
            fcfs_release resource_id s =
              Inr (s\<lparr>resources := (resources s)
                     [resource_id := (resources s ! resource_id)\<lparr>owner := None\<rparr>]\<rparr>))
       \<and> (\<forall>w ws. owner (resources s ! resource_id) = Some c \<longrightarrow>
            waitqueue (resources s ! resource_id) = w # ws \<longrightarrow>
            status (procs s w) = PROCESS_WAIT \<longrightarrow>
            fcfs_release resource_id s =
              Inr (s\<lparr>procs := (procs s)(w := (procs s w)\<lparr>status := PROCESS_READY\<rparr>),
                     resources := (resources s)
                       [resource_id := (resources s ! resource_id)\<lparr>owner := None, waitqueue := ws\<rparr>],
                     readyqueue := readyqueue s @ [w]\<rparr>))"
  using assms
  by (auto simp: fcfs_acquire_def fcfs_release_def disown_def wake_up_def Let_def)

theorem C7_fcfs_protocol_witness:
  "current wait_state = Some 0 \<and> length (resources wait_state) = 2
   \<and> map_sum id (\<lambda>r. (fst r, map owner (resources (snd r)))) (fcfs_acquire 1 wait_state)
       = Inr (True, [Some 0, Some 0])
   \<and> map_sum id (\<lambda>r. (fst r, status (procs (snd r) 0), wqs (snd r))) (fcfs_acquire 0 wait_state)
       = Inr (False, PROCESS_WAIT, [[1, 2, 3, 0], []])
   \<and> map_sum id (\<lambda>s. (map owner (resources s), wqs s, readyqueue s, status (procs s 1)))
        (fcfs_release 0 wait_state)
       = Inr ([None, None], [[2, 3], []], [4, 1], PROCESS_READY)"
  using C7_fcfs_protocol [of 1 wait_state 0] C7_fcfs_protocol [of 0 wait_state 0]
  by (simp add: wait_state_def wqs_def)

subsection \<open>C8: round-robin\<close>

lemma fifo_pick_next_eq:
  "fifo_pick_next s =
     (case readyqueue s of [] \<Rightarrow> None | first # _ \<Rightarrow> Some first,
      s\<lparr>readyqueue := tl (readyqueue s)\<rparr>)"
  by (cases "readyqueue s") (simp_all add: fifo_pick_next_def detach_def)

text \<open>
  Claim C8. \<open>rr_schedule\<close> appends an unfinished current process to the tail of the ready
  queue and then returns the head of the queue, whatever the remaining times, leaving
  the tail of the queue; three processes of lifespan 3, all forked before the first
  tick and never blocking, run in the order P0, P1, P2, P0, P1, P2, P0, P1, P2, one tick
  each, after which the processor is idle.
\<close>

theorem C8_rr_schedule:
  "(\<forall>c. unfinished s c \<longrightarrow> requeue_current s = s\<lparr>readyqueue := readyqueue s @ [c]\<rparr>)
   \<and> fst (rr_schedule s) =
       (case readyqueue (requeue_current s) of [] \<Rightarrow> None | first # _ \<Rightarrow> Some first)
   \<and> snd (rr_schedule s) =
       (requeue_current s)\<lparr>readyqueue := tl (readyqueue (requeue_current s))\<rparr>
   \<and> schedule_log MAX_PRIO rr_scheduler rr_events (init nr_resources) =
       [Some 0, Some 1, Some 2, Some 0, Some 1, Some 2, Some 0, Some 1, Some 2, None]"
proof (intro conjI allI impI)
  show "requeue_current s = s\<lparr>readyqueue := readyqueue s @ [c]\<rparr>" if "unfinished s c" for c
    using that by (rule requeue_current_unfinished)
  show "fst (rr_schedule s) =
       (case readyqueue (requeue_current s) of [] \<Rightarrow> None | first # _ \<Rightarrow> Some first)"
    by (simp add: rr_schedule_def fifo_pick_next_eq)
  show "snd (rr_schedule s) =
       (requeue_current s)\<lparr>readyqueue := tl (readyqueue (requeue_current s))\<rparr>"
    by (simp add: rr_schedule_def fifo_pick_next_eq)
  show "schedule_log MAX_PRIO rr_scheduler rr_events (init nr_resources) =
       [Some 0, Some 1, Some 2, Some 0, Some 1, Some 2, Some 0, Some 1, Some 2, None]"
    by (simp add: rr_events_def driver_simps rr_schedule_def requeue_current_def
          fifo_pick_next_def detach_def)
qed

theorem C8_rr_schedule_witness:
  "unfinished srtf_state 0 \<and> readyqueue srtf_state = [2, 1]
   \<and> remaining srtf_state 2 = 4 \<and> remaining srtf_state 1 = 3
   \<and> fst (rr_schedule srtf_state) = Some 2
   \<and> readyqueue (snd (rr_schedule srtf_state)) = [1, 0]"
proof -
  have u: "unfinished srtf_state 0" "readyqueue srtf_state = [2, 1]"
    "remaining srtf_state 2 = 4" "remaining srtf_state 1 = 3"
    by (simp_all add: srtf_state_def unfinished_def running_def remaining_def)
  have q: "readyqueue (requeue_current srtf_state) = [2, 1, 0]"
    using C8_rr_schedule [of srtf_state] u(1) by (simp add: srtf_state_def)
  have "fst (rr_schedule srtf_state) = Some 2" "readyqueue (snd (rr_schedule srtf_state)) = [1, 0]"
    using C8_rr_schedule [of srtf_state] q by simp_all
  then show ?thesis using u by blast
qed

subsection \<open>C9: shortest job first\<close>

lemma sjf_pick_next_eq:
  "sjf_pick_next s =
     (first_min_by (\<lambda>p. lifespan (procs s p)) (readyqueue s),
      case first_min_by (\<lambda>p. lifespan (procs s p)) (readyqueue s) of
        None \<Rightarrow> s
      | Some n \<Rightarrow> s\<lparr>readyqueue := remove1 n (readyqueue s)\<rparr>)"
proof (cases "readyqueue s")
  case Nil
  then show ?thesis by (simp add: sjf_pick_next_def)
next
  case (Cons first rest)
  then show ?thesis
    using scan_loop_first_min [of "\<lambda>p. lifespan (procs s p)" first rest]
    by (simp add: sjf_pick_next_def detach_def del: scan_loop.simps)
qed

text \<open>
  Claim C9. \<open>sjf_schedule\<close> does not preempt: a current process that is not waiting and
  has \<open>age < lifespan\<close> is returned again and nothing changes. Otherwise the selection
  returns the first process, in scan order, of the smallest lifespan (the comparison is
  strict, so the first minimum wins) and removes it from the queue. With processes of
  lifespans 5, 3 and 8 forked together, the process of lifespan 3 runs first, for its
  three ticks, before the two others run at all.
\<close>

theorem C9_sjf_schedule:
  "(\<forall>c. unfinished s c \<longrightarrow> sjf_schedule s = (Some c, s))
   \<and> ((\<forall>c. \<not> unfinished s c) \<longrightarrow>
        fst (sjf_schedule s) = first_min_by (\<lambda>p. lifespan (procs s p)) (readyqueue s)
        \<and> snd (sjf_schedule s) =
            (case fst (sjf_schedule s) of
               None \<Rightarrow> s
             | Some n \<Rightarrow> s\<lparr>readyqueue := remove1 n (readyqueue s)\<rparr>))
   \<and> schedule_log MAX_PRIO sjf_scheduler sjf_events (init nr_resources) =
       [Some 1, Some 1, Some 1, Some 0, Some 0, Some 0, Some 0, Some 0,
        Some 2, Some 2, Some 2, Some 2, Some 2, Some 2, Some 2, Some 2, None]"
proof (intro conjI allI impI)
  show "sjf_schedule s = (Some c, s)" if "unfinished s c" for c
    using that by (simp add: sjf_schedule_def unfinished_def running_def)
  assume n: "\<forall>c. \<not> unfinished s c"
  then have p: "sjf_schedule s = sjf_pick_next s"
    by (auto simp: sjf_schedule_def unfinished_def running_def split: option.splits)
  show "fst (sjf_schedule s) = first_min_by (\<lambda>p. lifespan (procs s p)) (readyqueue s)"
    by (simp add: p sjf_pick_next_eq)
  show "snd (sjf_schedule s) =
            (case fst (sjf_schedule s) of
               None \<Rightarrow> s
             | Some n \<Rightarrow> s\<lparr>readyqueue := remove1 n (readyqueue s)\<rparr>)"
    by (simp add: p sjf_pick_next_eq)
next
  show "schedule_log MAX_PRIO sjf_scheduler sjf_events (init nr_resources) =
       [Some 1, Some 1, Some 1, Some 0, Some 0, Some 0, Some 0, Some 0,
        Some 2, Some 2, Some 2, Some 2, Some 2, Some 2, Some 2, Some 2, None]"
    by (simp add: sjf_events_def driver_simps sjf_schedule_def sjf_pick_next_def detach_def)
qed

theorem C9_sjf_schedule_witness:
  "unfinished srtf_state 0 \<and> sjf_schedule srtf_state = (Some 0, srtf_state)
   \<and> current sjf_state = None
   \<and> map (\<lambda>p. lifespan (procs sjf_state p)) (readyqueue sjf_state) = [5, 3, 8, 3]
   \<and> fst (sjf_schedule sjf_state) = Some 1
   \<and> readyqueue (snd (sjf_schedule sjf_state)) = [0, 2, 3]"
proof -
  have u: "unfinished srtf_state 0" "\<forall>c. \<not> unfinished sjf_state c" "current sjf_state = None"
    "map (\<lambda>p. lifespan (procs sjf_state p)) (readyqueue sjf_state) = [5, 3, 8, 3]"
    by (simp_all add: srtf_state_def sjf_state_def unfinished_def running_def new_process_def)
  have k: "sjf_schedule srtf_state = (Some 0, srtf_state)"
    using C9_sjf_schedule [of srtf_state] u(1) by blast
  have m: "first_min_by (\<lambda>p. lifespan (procs sjf_state p)) (readyqueue sjf_state) = Some 1"
    by (simp add: first_min_by_def sjf_state_def new_process_def)
  have f: "fst (sjf_schedule sjf_state) = Some 1"
    using C9_sjf_schedule [of sjf_state] u(2) m by simp
  have "readyqueue (snd (sjf_schedule sjf_state)) = [0, 2, 3]"
    using C9_sjf_schedule [of sjf_state] u(2) f by (simp add: sjf_state_def)
  then show ?thesis using u k f by blast
qed

subsection \<open>C10: the requeued process is aged too\<close>

text \<open>
  Claim C10. In \<open>pa_schedule\<close>, on a state whose ready queue has no duplicates and does
  not hold the current process, a current process \<open>c\<close> that is not waiting and has
  \<open>age < lifespan\<close> is at the tail of the ready queue, with its priority reset to
  \<open>prio_orig\<close>, when the scan runs, and the scan increments it like the others: after the
  call its priority is \<open>prio_orig + 1\<close>, which is not \<open>prio_orig\<close>, and the selection is
  made on the priorities after the scan, that of \<open>c\<close> included.
\<close>

theorem C10_pa_requeued_is_aged:
  assumes "unfinished s c" and "c \<notin> set (readyqueue s)" and "distinct (readyqueue s)"
  shows "readyqueue (pa_requeue s) = readyqueue s @ [c]
       \<and> prio (procs (pa_requeue s) c) = prio_orig (procs s c)
       \<and> prio (procs (snd (pa_schedule s)) c) = prio_orig (procs s c) + 1
       \<and> prio (procs (snd (pa_schedule s)) c) \<noteq> prio_orig (procs s c)
       \<and> prio_orig (procs (snd (pa_schedule s)) c) = prio_orig (procs s c)
       \<and> fst (pa_schedule s) =
           first_max_by (\<lambda>p. prio (procs (snd (pa_schedule s)) p)) (readyqueue s @ [c])"
proof -
  have r: "pa_requeue s = s\<lparr>readyqueue := readyqueue s @ [c],
                procs := (procs s)(c := (procs s c)\<lparr>prio := prio_orig (procs s c)\<rparr>)\<rparr>"
    using assms(1) by (rule pa_requeue_unfinished)
  have q: "readyqueue (pa_requeue s) = readyqueue s @ [c]" by (simp add: r)
  have d: "distinct (readyqueue (pa_requeue s))" using assms(2,3) by (simp add: q)
  have p: "procs (snd (pa_schedule s)) = aged (procs (pa_requeue s)) (readyqueue s @ [c])"
    using pa_schedule_procs [OF d] by (simp add: q)
  have 1: "prio (procs (snd (pa_schedule s)) c) = prio_orig (procs s c) + 1"
    "prio_orig (procs (snd (pa_schedule s)) c) = prio_orig (procs s c)"
    by (simp_all add: p aged_def r)
  have 2: "prio (procs (pa_requeue s) c) = prio_orig (procs s c)" by (simp add: r)
  have 3: "prio (procs (snd (pa_schedule s)) c) \<noteq> prio_orig (procs s c)" by (simp add: 1)
  show ?thesis using q 1 2 3 pa_schedule_fst [OF d] by simp
qed

theorem C10_pa_requeued_is_aged_witness:
  "unfinished pa_state 0 \<and> readyqueue pa_state = [1, 2] \<and> prio_orig (procs pa_state 0) = 5
   \<and> prio (procs pa_state 0) = 9
   \<and> readyqueue (pa_requeue pa_state) = [1, 2, 0]
   \<and> map (\<lambda>p. prio (procs (snd (pa_schedule pa_state)) p)) [1, 2, 0] = [5, 3, 6]
   \<and> fst (pa_schedule pa_state) = Some 0"
proof -
  have u: "unfinished pa_state 0" "0 \<notin> set (readyqueue pa_state)" "distinct (readyqueue pa_state)"
    "readyqueue pa_state = [1, 2]" "prio_orig (procs pa_state 0) = 5" "prio (procs pa_state 0) = 9"
    by (simp_all add: pa_state_def unfinished_def running_def)
  have o: "map (\<lambda>p. prio (procs (snd (pa_schedule pa_state)) p)) [1, 2] = [5, 3]"
    by (simp add: pa_schedule_def pa_requeue_def pa_pick_next_def detach_def pa_state_def Let_def)
  have c: "prio (procs (snd (pa_schedule pa_state)) 0) = 6"
    using C10_pa_requeued_is_aged [OF u(1,2,3)] u(5) by simp
  have q: "readyqueue (pa_requeue pa_state) = [1, 2, 0]"
    using C10_pa_requeued_is_aged [OF u(1,2,3)] u(4) by simp
  have f: "fst (pa_schedule pa_state) = Some 0"
    using C10_pa_requeued_is_aged [OF u(1,2,3)] o c by (simp add: u(4) first_max_by_def)
  show ?thesis using u o c q f by simp
qed

end
